theory Spec2Isabelle
  imports Main "HOL-Library.Word" "HOL-Library.Sublist"
begin

chapter \<open>martian: modifier groups, connection metrics and the proxy engine\<close>

text \<open>
  A shallow embedding of three parts of the repository:
  \<^item> \<^verbatim>\<open>fifo/fifo_group.go\<close>: the modifier groups (\<^verbatim>\<open>group\<close>, \<^verbatim>\<open>Group\<close>,
    \<^verbatim>\<open>ImmutableGroup\<close>) with \<^verbatim>\<open>ModifyRequest\<close>, \<^verbatim>\<open>ModifyResponse\<close> and \<^verbatim>\<open>ToImmutable\<close>;
  \<^item> package \<^verbatim>\<open>connmetric\<close>: \<^verbatim>\<open>InstrumentedConn\<close> with \<^verbatim>\<open>Read\<close>, \<^verbatim>\<open>Write\<close>, \<^verbatim>\<open>Close\<close>;
  \<^item> \<^verbatim>\<open>proxy.go\<close>: \<^verbatim>\<open>isCloseable\<close>, \<^verbatim>\<open>handleLoop\<close>, \<^verbatim>\<open>handle\<close>,
    \<^verbatim>\<open>handleConnectRequest\<close>, \<^verbatim>\<open>roundTrip\<close> and their helpers.

  Go pointers to mutable objects become values that are passed in and returned; a Go
  \<^verbatim>\<open>error\<close> that may be \<^verbatim>\<open>nil\<close> is an \<open>error option\<close>; a run-time panic is a value of
  its own; what the network, the clock and the other goroutines answer is an argument of
  the function that asks.
\<close>

section \<open>Definitions: errors\<close>

text \<open>
  The error values the modelled code tells apart. \<open>EOF\<close>, \<open>ErrClosedPipe\<close> and
  \<open>ErrUnexpectedEOF\<close> are the sentinels of package \<^verbatim>\<open>io\<close>; \<open>errClose\<close> is the proxy's
  own sentinel (\<^verbatim>\<open>proxy.go\<close> line 43). \<open>NetError timeout msg\<close> is any error value that
  implements \<^verbatim>\<open>net.Error\<close>, with the answer of its \<^verbatim>\<open>Timeout()\<close> and its text;
  \<open>ErrForceClose\<close> is a \<^verbatim>\<open>*trafficshape.ErrForceClose\<close>; \<open>ErrorString\<close> is any other
  error, with its text. Go compares the sentinels by identity, so \<open>ErrorString ''EOF''\<close>
  is not \<open>EOF\<close>. \<open>MultiError\<close> is \<^verbatim>\<open>*martian.MultiError\<close> with its member errors.
\<close>

datatype error =
    EOF
  | ErrClosedPipe
  | ErrUnexpectedEOF
  | errClose
  | NetError bool string
  | ErrForceClose string
  | ErrorString string
  | MultiError "error list"

text \<open>
  Modelled from the spec: \<^verbatim>\<open>martian.MultiError\<close> (its file is not among the sources).
  The spec calls it a multi-error container into which a group collects errors, which
  behaves as success when empty. A container under construction is the list of the errors
  added so far, in the order they were added; \<^verbatim>\<open>NewMultiError()\<close> is the empty one.
\<close>

definition NewMultiError :: "error list" where
  "NewMultiError = []"

definition Add :: "error list \<Rightarrow> error \<Rightarrow> error list" where
  "Add merr err = merr @ [err]"

definition Empty :: "error list \<Rightarrow> bool" where
  "Empty merr = (merr = [])"

section \<open>Definitions: modifier groups\<close>

text \<open>
  A request modifier mutates the request it is given and returns an error or \<^verbatim>\<open>nil\<close>:
  a function from the message to the returned error and the message afterwards. The
  message type \<open>'q\<close> (requests) and \<open>'s\<close> (responses) holds everything a modifier can
  change. An entry of a group is an interface value; \<^verbatim>\<open>ToImmutable\<close> asks for its dynamic
  type, so entries are a datatype: an opaque modifier with its two methods, a \<^verbatim>\<open>*Group\<close>,
  or an \<^verbatim>\<open>*ImmutableGroup\<close>. Both group types embed the struct \<^verbatim>\<open>group\<close>; the locks of
  \<^verbatim>\<open>Group\<close> do not change what a single call computes and are left out.
\<close>

datatype ('q, 's) modifier =
    Modifier "'q \<Rightarrow> error option \<times> 'q" "'s \<Rightarrow> error option \<times> 's"
  | Group "('q, 's) group"
  | ImmutableGroup "('q, 's) group"
and ('q, 's) group =
    group (reqmods: "('q, 's) modifier list") (resmods: "('q, 's) modifier list")
      (aggregateErrors: bool)

text \<open>
  \<^verbatim>\<open>group.ModifyRequest\<close> (lines 43 to 64). \<open>reqmods_range\<close> is the \<^verbatim>\<open>for ... range\<close>
  loop over the remaining entries together with the statements after it; its third
  argument is the local \<^verbatim>\<open>merr\<close>, \<open>None\<close> while it is \<^verbatim>\<open>nil\<close>. \<^verbatim>\<open>Group.ModifyRequest\<close>
  (lines 147 to 151) and the promoted method of \<^verbatim>\<open>ImmutableGroup\<close> both run it.
\<close>

fun ModifyRequest :: "('q, 's) modifier \<Rightarrow> 'q \<Rightarrow> error option \<times> 'q"
and group_ModifyRequest :: "('q, 's) group \<Rightarrow> 'q \<Rightarrow> error option \<times> 'q"
and reqmods_range ::
  "bool \<Rightarrow> ('q, 's) modifier list \<Rightarrow> error list option \<Rightarrow> 'q \<Rightarrow> error option \<times> 'q"
where
  "ModifyRequest (Modifier f g) req = f req"
| "ModifyRequest (Group g) req = group_ModifyRequest g req"
| "ModifyRequest (ImmutableGroup g) req = group_ModifyRequest g req"
| "group_ModifyRequest (group rqs rss agg) req = reqmods_range agg rqs None req"
| "reqmods_range agg [] merr req =
     (case merr of
        None \<Rightarrow> (None, req)
      | Some es \<Rightarrow> if Empty es then (None, req) else (Some (MultiError es), req))"
| "reqmods_range agg (reqmod # rest) merr req =
     (case ModifyRequest reqmod req of
        (None, req') \<Rightarrow> reqmods_range agg rest merr req'
      | (Some err, req') \<Rightarrow>
          if agg
          then reqmods_range agg rest
                 (Some (Add (case merr of None \<Rightarrow> NewMultiError | Some es \<Rightarrow> es) err)) req'
          else (Some err, req'))"

text \<open>\<^verbatim>\<open>group.ModifyResponse\<close> (lines 70 to 91), the same loop over \<^verbatim>\<open>resmods\<close>.\<close>

fun ModifyResponse :: "('q, 's) modifier \<Rightarrow> 's \<Rightarrow> error option \<times> 's"
and group_ModifyResponse :: "('q, 's) group \<Rightarrow> 's \<Rightarrow> error option \<times> 's"
and resmods_range ::
  "bool \<Rightarrow> ('q, 's) modifier list \<Rightarrow> error list option \<Rightarrow> 's \<Rightarrow> error option \<times> 's"
where
  "ModifyResponse (Modifier f g) res = g res"
| "ModifyResponse (Group g) res = group_ModifyResponse g res"
| "ModifyResponse (ImmutableGroup g) res = group_ModifyResponse g res"
| "group_ModifyResponse (group rqs rss agg) res = resmods_range agg rss None res"
| "resmods_range agg [] merr res =
     (case merr of
        None \<Rightarrow> (None, res)
      | Some es \<Rightarrow> if Empty es then (None, res) else (Some (MultiError es), res))"
| "resmods_range agg (resmod # rest) merr res =
     (case ModifyResponse resmod res of
        (None, res') \<Rightarrow> resmods_range agg rest merr res'
      | (Some err, res') \<Rightarrow>
          if agg
          then resmods_range agg rest
                 (Some (Add (case merr of None \<Rightarrow> NewMultiError | Some es \<Rightarrow> es) err)) res'
          else (Some err, res'))"

text \<open>
  \<^verbatim>\<open>Group.ToImmutable\<close> (lines 290 to 329). The two loops append to the local slices
  \<^verbatim>\<open>reqmods\<close> and \<^verbatim>\<open>resmods\<close>, here the last argument. The result is the \<^verbatim>\<open>group\<close>
  struct inside the returned \<^verbatim>\<open>*ImmutableGroup\<close>. A group that contains itself cannot
  be written as a value of the datatype; on such a group the Go code does not return.
\<close>

fun ToImmutable :: "('q, 's) group \<Rightarrow> ('q, 's) group"
and ToImmutable_reqmods ::
  "bool \<Rightarrow> ('q, 's) modifier list \<Rightarrow> ('q, 's) modifier list \<Rightarrow> ('q, 's) modifier list"
and ToImmutable_resmods ::
  "bool \<Rightarrow> ('q, 's) modifier list \<Rightarrow> ('q, 's) modifier list \<Rightarrow> ('q, 's) modifier list"
where
  "ToImmutable (group rqs rss agg) =
     group (ToImmutable_reqmods agg rqs []) (ToImmutable_resmods agg rss []) agg"
| "ToImmutable_reqmods agg [] reqmods' = reqmods'"
| "ToImmutable_reqmods agg (Group mm # rest) reqmods' =
     (let im = ToImmutable mm in
      if agg = aggregateErrors im
      then ToImmutable_reqmods agg rest (reqmods' @ reqmods im)
      else ToImmutable_reqmods agg rest (reqmods' @ [ImmutableGroup im]))"
| "ToImmutable_reqmods agg (m # rest) reqmods' = ToImmutable_reqmods agg rest (reqmods' @ [m])"
| "ToImmutable_resmods agg [] resmods' = resmods'"
| "ToImmutable_resmods agg (Group mm # rest) resmods' =
     (let im = ToImmutable mm in
      if agg = aggregateErrors im
      then ToImmutable_resmods agg rest (resmods' @ resmods im)
      else ToImmutable_resmods agg rest (resmods' @ [ImmutableGroup im]))"
| "ToImmutable_resmods agg (m # rest) resmods' = ToImmutable_resmods agg rest (resmods' @ [m])"

subsection \<open>What the specification says of a group, in its own words\<close>

text \<open>
  ``Run all entries'': every entry is called once, in insertion order, each on the
  message the previous one left, whatever the earlier ones returned. The result is the
  list of what the entries returned and the message at the end.
\<close>

fun each_ModifyRequest ::
  "('q, 's) modifier list \<Rightarrow> 'q \<Rightarrow> error option list \<times> 'q" where
  "each_ModifyRequest [] req = ([], req)"
| "each_ModifyRequest (m # ms) req =
     (case ModifyRequest m req of
        (r, req') \<Rightarrow> (case each_ModifyRequest ms req' of (rs, req'') \<Rightarrow> (r # rs, req'')))"

fun each_ModifyResponse ::
  "('q, 's) modifier list \<Rightarrow> 's \<Rightarrow> error option list \<times> 's" where
  "each_ModifyResponse [] res = ([], res)"
| "each_ModifyResponse (m # ms) res =
     (case ModifyResponse m res of
        (r, res') \<Rightarrow> (case each_ModifyResponse ms res' of (rs, res'') \<Rightarrow> (r # rs, res'')))"

definition errors_of :: "error option list \<Rightarrow> error list" where
  "errors_of rs = concat (map (\<lambda>r. case r of None \<Rightarrow> [] | Some e \<Rightarrow> [e]) rs)"

text \<open>
  Which entries a group calls is observed the way a test would: entry number \<open>i\<close> is
  wrapped in a modifier that calls it and then appends \<open>i\<close> to a list carried beside the
  message. \<open>ModifyRequest_calls g req\<close> is that list after the group has run on \<open>req\<close>.
\<close>

definition recording :: "nat \<Rightarrow> ('q, 's) modifier \<Rightarrow> ('q \<times> nat list, 's \<times> nat list) modifier" where
  "recording i m =
     Modifier
       (\<lambda>(req, calls). case ModifyRequest m req of (r, req') \<Rightarrow> (r, (req', calls @ [i])))
       (\<lambda>(res, calls). case ModifyResponse m res of (r, res') \<Rightarrow> (r, (res', calls @ [i])))"

fun recorded_from :: "nat \<Rightarrow> ('q, 's) modifier list \<Rightarrow> ('q \<times> nat list, 's \<times> nat list) modifier list" where
  "recorded_from i [] = []"
| "recorded_from i (m # ms) = recording i m # recorded_from (Suc i) ms"

definition ModifyRequest_calls :: "('q, 's) group \<Rightarrow> 'q \<Rightarrow> nat list" where
  "ModifyRequest_calls g req =
     snd (snd (group_ModifyRequest
       (group (recorded_from 0 (reqmods g)) (recorded_from 0 (resmods g)) (aggregateErrors g))
       (req, [])))"

definition ModifyResponse_calls :: "('q, 's) group \<Rightarrow> 's \<Rightarrow> nat list" where
  "ModifyResponse_calls g res =
     snd (snd (group_ModifyResponse
       (group (recorded_from 0 (reqmods g)) (recorded_from 0 (resmods g)) (aggregateErrors g))
       (res, [])))"

text \<open>
  Two error outcomes are equivalent when both are \<^verbatim>\<open>nil\<close>, or both are errors with the
  same member errors in the same order, a \<open>MultiError\<close> counting for its members.
\<close>

fun member_errors :: "error \<Rightarrow> error list" where
  "member_errors (MultiError es) = concat (map member_errors es)"
| "member_errors e = [e]"

definition error_equiv :: "error option \<Rightarrow> error option \<Rightarrow> bool" where
  "error_equiv a b =
     (case a of
        None \<Rightarrow> b = None
      | Some x \<Rightarrow> (case b of None \<Rightarrow> False | Some y \<Rightarrow> member_errors x = member_errors y))"

text \<open>
  What a snapshot of a parent with flag \<open>agg\<close> holds in place of one entry: the entries
  of the child's own snapshot when the child is a \<^verbatim>\<open>*Group\<close> with the parent's flag, the
  child's snapshot as one nested entry when the flags differ, the entry itself otherwise.
\<close>

definition snapshot_reqmod :: "bool \<Rightarrow> ('q, 's) modifier \<Rightarrow> ('q, 's) modifier list" where
  "snapshot_reqmod agg m =
     (case m of
        Group c \<Rightarrow>
          if agg = aggregateErrors c then reqmods (ToImmutable c)
          else [ImmutableGroup (ToImmutable c)]
      | _ \<Rightarrow> [m])"

definition snapshot_resmod :: "bool \<Rightarrow> ('q, 's) modifier \<Rightarrow> ('q, 's) modifier list" where
  "snapshot_resmod agg m =
     (case m of
        Group c \<Rightarrow>
          if agg = aggregateErrors c then resmods (ToImmutable c)
          else [ImmutableGroup (ToImmutable c)]
      | _ \<Rightarrow> [m])"

subsection \<open>Auxiliary definitions for the proofs about groups\<close>

text \<open>
  The loop alone, without the statements after it: \<open>Inl\<close> when it left through
  \<^verbatim>\<open>return err\<close>, \<open>Inr\<close> with \<^verbatim>\<open>merr\<close> when it ran to the end of the list.
\<close>

fun reqmods_steps ::
  "bool \<Rightarrow> ('q, 's) modifier list \<Rightarrow> error list option \<Rightarrow> 'q \<Rightarrow>
   (error \<times> 'q) + (error list option \<times> 'q)" where
  "reqmods_steps agg [] merr req = Inr (merr, req)"
| "reqmods_steps agg (reqmod # rest) merr req =
     (case ModifyRequest reqmod req of
        (None, req') \<Rightarrow> reqmods_steps agg rest merr req'
      | (Some err, req') \<Rightarrow>
          if agg
          then reqmods_steps agg rest
                 (Some (Add (case merr of None \<Rightarrow> NewMultiError | Some es \<Rightarrow> es) err)) req'
          else Inl (err, req'))"

fun resmods_steps ::
  "bool \<Rightarrow> ('q, 's) modifier list \<Rightarrow> error list option \<Rightarrow> 's \<Rightarrow>
   (error \<times> 's) + (error list option \<times> 's)" where
  "resmods_steps agg [] merr res = Inr (merr, res)"
| "resmods_steps agg (resmod # rest) merr res =
     (case ModifyResponse resmod res of
        (None, res') \<Rightarrow> resmods_steps agg rest merr res'
      | (Some err, res') \<Rightarrow>
          if agg
          then resmods_steps agg rest
                 (Some (Add (case merr of None \<Rightarrow> NewMultiError | Some es \<Rightarrow> es) err)) res'
          else Inl (err, res'))"

definition merge_errors :: "error list option \<Rightarrow> error list option \<Rightarrow> error list option" where
  "merge_errors a b =
     (case b of
        None \<Rightarrow> a
      | Some ys \<Rightarrow> Some ((case a of None \<Rightarrow> [] | Some xs \<Rightarrow> xs) @ ys))"

definition collect :: "error list option \<Rightarrow> error list \<Rightarrow> error list option" where
  "collect merr es =
     (if es = [] then merr else Some ((case merr of None \<Rightarrow> [] | Some xs \<Rightarrow> xs) @ es))"

definition acc_equiv :: "error list option \<Rightarrow> error list option \<Rightarrow> bool" where
  "acc_equiv a b =
     (case a of
        None \<Rightarrow> b = None
      | Some xs \<Rightarrow>
          (case b of
             None \<Rightarrow> False
           | Some ys \<Rightarrow>
               xs \<noteq> [] \<and> ys \<noteq> [] \<and>
               concat (map member_errors xs) = concat (map member_errors ys)))"

fun steps_equiv ::
  "(error \<times> 'm) + (error list option \<times> 'm) \<Rightarrow> (error \<times> 'm) + (error list option \<times> 'm) \<Rightarrow> bool" where
  "steps_equiv (Inl (e1, m1)) (Inl (e2, m2)) = (m1 = m2 \<and> member_errors e1 = member_errors e2)"
| "steps_equiv (Inr (a1, m1)) (Inr (a2, m2)) = (m1 = m2 \<and> acc_equiv a1 a2)"
| "steps_equiv _ _ = False"

definition reqmods_preserved :: "('q, 's) group \<Rightarrow> bool" where
  "reqmods_preserved c =
     (\<forall>a1 a2 req. acc_equiv a1 a2 \<longrightarrow>
        steps_equiv
          (reqmods_steps (aggregateErrors c) (reqmods (ToImmutable c)) a1 req)
          (reqmods_steps (aggregateErrors c) (reqmods c) a2 req))"

definition resmods_preserved :: "('q, 's) group \<Rightarrow> bool" where
  "resmods_preserved c =
     (\<forall>a1 a2 res. acc_equiv a1 a2 \<longrightarrow>
        steps_equiv
          (resmods_steps (aggregateErrors c) (resmods (ToImmutable c)) a1 res)
          (resmods_steps (aggregateErrors c) (resmods c) a2 res))"

section \<open>Definitions: the instrumented connection (package connmetric)\<close>

text \<open>
  The struct \<^verbatim>\<open>InstrumentedConn\<close>. The two counters are the \<^verbatim>\<open>uint64\<close> values behind
  \<^verbatim>\<open>bytesIn\<close> and \<^verbatim>\<open>bytesOut\<close>. The field \<open>error\<close> is the \<^verbatim>\<open>atomic.Pointer[error]\<close>:
  \<open>None\<close> is the nil pointer (what \<^verbatim>\<open>Load()\<close> returns until something is stored),
  \<open>Some e\<close> a pointer to the error value \<open>e\<close>, itself \<^verbatim>\<open>nil\<close> or not. \<open>closeOnce\<close> is
  the done flag of the \<^verbatim>\<open>sync.Once\<close>. The embedded \<^verbatim>\<open>net.Conn\<close> and the tracker are
  seen through what they were asked to do: \<open>Conn_closes\<close> counts the \<^verbatim>\<open>Close\<close> calls
  forwarded to the inner connection, \<open>tracker\<close> lists the entries \<^verbatim>\<open>RecordStats\<close> was
  given. What the inner connection answers to a call is an argument of the call, and so is
  the clock. A call returns a value or panics; in both cases the struct is left in the
  state given second, so a caller that recovers from the panic can go on using it.
\<close>

datatype panic = NilPointerDereference

record StatsEntry =
  Address :: string
  Duration :: int
  BytesIn :: "64 word"
  BytesOut :: "64 word"
  Error :: "error option"

record InstrumentedConn =
  address :: string
  start :: int
  bytesIn :: "64 word"
  bytesOut :: "64 word"
  error :: "error option option"
  closeOnce :: bool
  closeError :: "error option"
  Conn_closes :: nat
  tracker :: "StatsEntry list"

text \<open>
  \<^verbatim>\<open>NewInstrumentedConn\<close> (lines 24 to 35) sets the connection, the tracker, the address,
  the start time and the two counters. It stores nothing in \<^verbatim>\<open>error\<close>, whose zero value
  holds the nil pointer.
\<close>

definition NewInstrumentedConn :: "string \<Rightarrow> int \<Rightarrow> InstrumentedConn" where
  "NewInstrumentedConn remote now =
     \<lparr>address = remote, start = now, bytesIn = 0, bytesOut = 0, error = None,
      closeOnce = False, closeError = None, Conn_closes = 0, tracker = []\<rparr>"

text \<open>
  \<^verbatim>\<open>Read\<close> (lines 37 to 45); \<open>inner\<close> is what \<^verbatim>\<open>ic.Conn.Read(b)\<close> returned. The
  condition \<^verbatim>\<open>err != nil && *ic.error.Load() == nil\<close> dereferences the loaded pointer only
  when \<^verbatim>\<open>err\<close> is not nil, and panics when that pointer is nil. \<^verbatim>\<open>uint64(n)\<close> is
  \<open>word_of_int n\<close>. \<^verbatim>\<open>Write\<close> (lines 47 to 55) is the same on \<^verbatim>\<open>bytesOut\<close>.
\<close>

definition Read ::
  "int \<times> error option \<Rightarrow> InstrumentedConn \<Rightarrow>
   (panic + int \<times> error option) \<times> InstrumentedConn" where
  "Read inner ic =
     (case inner of (n, err) \<Rightarrow>
        if err \<noteq> None then
          (case error ic of
             None \<Rightarrow> (Inl NilPointerDereference, ic)
           | Some cur \<Rightarrow>
               let ic1 = (if cur = None then ic\<lparr>error := Some err\<rparr> else ic);
                   ic2 = ic1\<lparr>bytesIn := bytesIn ic1 + word_of_int n\<rparr>
               in (Inr (n, err), ic2))
        else (Inr (n, err), ic\<lparr>bytesIn := bytesIn ic + word_of_int n\<rparr>))"

definition Write ::
  "int \<times> error option \<Rightarrow> InstrumentedConn \<Rightarrow>
   (panic + int \<times> error option) \<times> InstrumentedConn" where
  "Write inner ic =
     (case inner of (n, err) \<Rightarrow>
        if err \<noteq> None then
          (case error ic of
             None \<Rightarrow> (Inl NilPointerDereference, ic)
           | Some cur \<Rightarrow>
               let ic1 = (if cur = None then ic\<lparr>error := Some err\<rparr> else ic);
                   ic2 = ic1\<lparr>bytesOut := bytesOut ic1 + word_of_int n\<rparr>
               in (Inr (n, err), ic2))
        else (Inr (n, err), ic\<lparr>bytesOut := bytesOut ic + word_of_int n\<rparr>))"

text \<open>
  \<^verbatim>\<open>close\<close> (lines 62 to 73): the duration, then \<^verbatim>\<open>ic.Conn.Close()\<close> (answering
  \<open>inner\<close>), then the fields of the \<^verbatim>\<open>StatsEntry\<close> literal, the last of which is
  \<^verbatim>\<open>*ic.error.Load()\<close>, and only then the call of \<^verbatim>\<open>RecordStats\<close>.
  \<^verbatim>\<open>Close\<close> (lines 57 to 60) runs it through the \<^verbatim>\<open>sync.Once\<close>, which counts a call
  that panicked as done.
\<close>

definition close ::
  "int \<Rightarrow> error option \<Rightarrow> InstrumentedConn \<Rightarrow> (panic + unit) \<times> InstrumentedConn" where
  "close now inner ic =
     (let dur = now - start ic;
          ic1 = ic\<lparr>closeError := inner, Conn_closes := Suc (Conn_closes ic)\<rparr>
      in case error ic1 of
           None \<Rightarrow> (Inl NilPointerDereference, ic1)
         | Some e \<Rightarrow>
             (Inr (),
              ic1\<lparr>tracker := tracker ic1 @
                 [\<lparr>Address = address ic1, Duration = dur, BytesIn = bytesIn ic1,
                   BytesOut = bytesOut ic1, Error = e\<rparr>]\<rparr>))"

definition Close ::
  "int \<Rightarrow> error option \<Rightarrow> InstrumentedConn \<Rightarrow>
   (panic + error option) \<times> InstrumentedConn" where
  "Close now inner ic =
     (if closeOnce ic then (Inr (closeError ic), ic)
      else
        (case close now inner ic of
           (Inl p, ic') \<Rightarrow> (Inl p, ic'\<lparr>closeOnce := True\<rparr>)
         | (Inr u, ic') \<Rightarrow> (Inr (closeError ic'), ic'\<lparr>closeOnce := True\<rparr>)))"

text \<open>
  Any sequence of calls on one connection, each with what the inner connection answers;
  a panic is recovered from and the next call is made.
\<close>

datatype conn_call =
    ReadCall int "error option"
  | WriteCall int "error option"
  | CloseCall int "error option"

fun conn_call_step :: "conn_call \<Rightarrow> InstrumentedConn \<Rightarrow> InstrumentedConn" where
  "conn_call_step (ReadCall n err) ic = snd (Read (n, err) ic)"
| "conn_call_step (WriteCall n err) ic = snd (Write (n, err) ic)"
| "conn_call_step (CloseCall now inner) ic = snd (Close now inner ic)"

fun conn_calls :: "conn_call list \<Rightarrow> InstrumentedConn \<Rightarrow> InstrumentedConn" where
  "conn_calls [] ic = ic"
| "conn_calls (c # cs) ic = conn_calls cs (conn_call_step c ic)"

section \<open>Definitions: the proxy engine (proxy.go)\<close>

subsection \<open>Closeable errors\<close>

text \<open>
  The text of an error, \<^verbatim>\<open>err.Error()\<close>. The texts of the \<^verbatim>\<open>io\<close> sentinels are those
  of the Go library, that of \<open>errClose\<close> is at line 43. Modelled from the spec: the text
  of a \<open>MultiError\<close> joins the texts of its members (here each followed by a newline).
\<close>

fun err_Error :: "error \<Rightarrow> string" where
  "err_Error EOF = ''EOF''"
| "err_Error ErrClosedPipe = ''io: read/write on closed pipe''"
| "err_Error ErrUnexpectedEOF = ''unexpected EOF''"
| "err_Error errClose = ''closing connection''"
| "err_Error (NetError timeout msg) = msg"
| "err_Error (ErrForceClose msg) = msg"
| "err_Error (ErrorString msg) = msg"
| "err_Error (MultiError es) = concat (map (\<lambda>e. err_Error e @ [CHR 0x0A]) es)"

text \<open>
  \<^verbatim>\<open>strings.Contains(s, substr)\<close>: \<open>substr\<close> occurs in \<open>s\<close> at some position.
\<close>

fun Contains :: "string \<Rightarrow> string \<Rightarrow> bool" where
  "Contains [] substr = (substr = [])"
| "Contains (c # s) substr = (prefix substr (c # s) \<or> Contains s substr)"

text \<open>
  \<^verbatim>\<open>isCloseable\<close> (lines 46 to 61): the type assertion to \<^verbatim>\<open>net.Error\<close> with
  \<^verbatim>\<open>Timeout()\<close>, the \<^verbatim>\<open>switch\<close> on the three sentinels, the search for \<^verbatim>\<open>"tls:"\<close> in
  the text.
\<close>

definition isCloseable :: "error \<Rightarrow> bool" where
  "isCloseable err =
     (if (case err of NetError timeout msg \<Rightarrow> timeout | _ \<Rightarrow> False) then True
      else if err = EOF \<or> err = ErrClosedPipe \<or> err = errClose then True
      else if Contains (err_Error err) ''tls:'' then True
      else False)"

subsection \<open>Session, context, messages\<close>

text \<open>
  Modelled from the spec: \<^verbatim>\<open>Session\<close> and \<^verbatim>\<open>Context\<close> (their file is not among the
  sources). The spec gives a session the flags \<^verbatim>\<open>secure\<close> and \<^verbatim>\<open>hijacked\<close>, the second
  set by a modifier that takes over the socket, and a context a back-reference to its
  session and the flag \<^verbatim>\<open>skip-round-trip\<close>; a new session has neither flag, a fresh context
  skips nothing. A context holds its session, so a modifier that is given the context can
  change both.
\<close>

record Session =
  secure :: bool
  hijacked :: bool

record Context =
  session :: Session
  skipRoundTrip :: bool

definition newSession :: Session where
  "newSession = \<lparr>secure = False, hijacked = False\<rparr>"

definition withSession :: "Session \<Rightarrow> Context" where
  "withSession s = \<lparr>session = s, skipRoundTrip = False\<rparr>"

definition Hijacked :: "Session \<Rightarrow> bool" where
  "Hijacked s = hijacked s"

definition IsSecure :: "Session \<Rightarrow> bool" where
  "IsSecure s = secure s"

definition MarkSecure :: "Session \<Rightarrow> Session" where
  "MarkSecure s = s\<lparr>secure := True\<rparr>"

definition SkippingRoundTrip :: "Context \<Rightarrow> bool" where
  "SkippingRoundTrip ctx = skipRoundTrip ctx"

text \<open>
  \<^verbatim>\<open>http.Header\<close> with \<^verbatim>\<open>Get\<close> and \<^verbatim>\<open>Set\<close>, and the fields of \<^verbatim>\<open>http.Request\<close> and
  \<^verbatim>\<open>http.Response\<close> that the engine reads or writes. \<open>TLS\<close> says whether \<^verbatim>\<open>req.TLS\<close>
  is set; \<open>Body_ReadWriteCloser\<close> whether \<^verbatim>\<open>res.Body\<close> is an \<^verbatim>\<open>io.ReadWriteCloser\<close>.
  \<^verbatim>\<open>req.RemoteAddr\<close> is left out, and so are the bodies: what is left unread of the
  body of a request is an answer of the environment (\<open>bodyDrained\<close> below).
\<close>

type_synonym Header = "string \<Rightarrow> string list"

definition Header_Get :: "Header \<Rightarrow> string \<Rightarrow> string" where
  "Header_Get h k = (case h k of [] \<Rightarrow> [] | v # vs \<Rightarrow> v)"

definition Header_Set :: "Header \<Rightarrow> string \<Rightarrow> string \<Rightarrow> Header" where
  "Header_Set h k v = h(k := [v])"

record Request =
  Method :: string
  ProtoMajor :: int
  ProtoMinor :: int
  reqClose :: bool
  Host :: string
  URL_Host :: string
  URL_Scheme :: string
  reqHeader :: Header
  TLS :: bool

record Response =
  StatusCode :: int
  resClose :: bool
  resHeader :: Header
  ContentLength :: int
  resRequest :: "Request option"
  Body_ReadWriteCloser :: bool

definition ProtoAtLeast :: "Request \<Rightarrow> int \<Rightarrow> int \<Rightarrow> bool" where
  "ProtoAtLeast r major minor =
     (ProtoMajor r > major \<or> ProtoMajor r = major \<and> ProtoMinor r \<ge> minor)"

text \<open>
  The dynamic type of the connection, which \<^verbatim>\<open>handle\<close> asks for: a plain connection, a
  \<^verbatim>\<open>*tls.Conn\<close>, or a \<^verbatim>\<open>*trafficshape.Conn\<close> which wraps a \<^verbatim>\<open>*tls.Conn\<close> or not.
\<close>

datatype conn = TCPConn | TLSConn | ShapedConn bool

text \<open>
  Functions of packages that are not among the sources, taken as parameters:
  \<^verbatim>\<open>proxyutil.NewResponse\<close>, \<^verbatim>\<open>proxyutil.Warning\<close>,
  \<^verbatim>\<open>httpguts.HeaderValuesContainsToken\<close>, \<^verbatim>\<open>shouldFlush\<close> and \<^verbatim>\<open>asCloseWriter\<close>.
  Modelled from the spec: \<^verbatim>\<open>NewResponse(code, nil, req)\<close> is a synthetic response with
  status \<open>code\<close> for the request \<open>req\<close>; its other fields are those the parameter gives.
\<close>

record Externals =
  newResponse :: "int \<Rightarrow> Request \<Rightarrow> Response"
  Warning :: "Header \<Rightarrow> error \<Rightarrow> Header"
  HeaderValuesContainsToken :: "string list \<Rightarrow> string \<Rightarrow> bool"
  shouldFlush :: "Response \<Rightarrow> bool"
  asCloseWriter :: "conn \<Rightarrow> bool"

definition NewResponse :: "Externals \<Rightarrow> int \<Rightarrow> Request \<Rightarrow> Response" where
  "NewResponse x code req = (newResponse x code req)\<lparr>StatusCode := code, resRequest := Some req\<rparr>"

text \<open>
  The fields of \<^verbatim>\<open>Proxy\<close> (lines 64 to 116). \<open>mitm\<close> says whether \<^verbatim>\<open>p.mitm\<close> is set.
  A request modifier works on the request and the context it reaches through it, a
  response modifier on the response and that context. The round tripper, the dialer and
  the \<^verbatim>\<open>closing\<close> channel are part of the answers of the environment below.
\<close>

record Proxy =
  AllowHTTP :: bool
  ConnectPassthrough :: bool
  WithoutWarning :: bool
  ErrorResponse :: "(Request \<Rightarrow> error \<Rightarrow> Response) option"
  ReadTimeout :: int
  ReadHeaderTimeout :: int
  WriteTimeout :: int
  CloseAfterReply :: bool
  mitm :: bool
  reqmod :: "(Request \<times> Context, Response \<times> Context) modifier"
  resmod :: "(Request \<times> Context, Response \<times> Context) modifier"

text \<open>
  What the engine does on the client connection and towards the upstream, in order.
  Each entry of the trace carries the value of the session's \<^verbatim>\<open>hijacked\<close> flag at that
  moment. The last five are the deferred calls: \<^verbatim>\<open>req.Body.Close()\<close> of \<^verbatim>\<open>handle\<close>
  (line 609), \<^verbatim>\<open>res.Body.Close()\<close> (lines 676 and 486), \<^verbatim>\<open>req.Body.Close()\<close> on the pipe of
  a passed-through CONNECT (line 458), \<^verbatim>\<open>cconn.Close()\<close> (line 475) and \<^verbatim>\<open>conn.Close()\<close> of
  \<^verbatim>\<open>handleLoop\<close> (line 284). The body of a request read by \<^verbatim>\<open>http.ReadRequest\<close> is read
  from the connection on demand, and its \<^verbatim>\<open>Close\<close> reads and discards what is still unread
  of it: \<open>CloseRequestBody n\<close> is a close that reads \<open>n\<close> bytes from the client connection.
\<close>

datatype event =
    SetReadDeadline
  | SetWriteDeadline
  | ReadRequest
  | CloseWrite
  | WriteResponse bool
  | Flush
  | PeekByte
  | DrainBuffered
  | TLSHandshake
  | HandshakeErrorCallback
  | H2Proxy
  | TunnelCopy string
  | RoundTrip
  | Connect
  | CloseRequestBody nat
  | CloseResponseBody
  | CloseRequestPipe
  | CloseUpstream
  | ConnClose

record Engine =
  sess :: Session
  trace :: "(event \<times> bool) list"

definition emit :: "event \<Rightarrow> Engine \<Rightarrow> Engine" where
  "emit ev st = st\<lparr>trace := trace st @ [(ev, hijacked (sess st))]\<rparr>"

text \<open>
  What the environment answers during one call of \<^verbatim>\<open>handle\<close>: the result of
  \<^verbatim>\<open>http.ReadRequest\<close>, whether \<^verbatim>\<open>p.closing\<close> is closed when \<^verbatim>\<open>readRequest\<close> and line
  703 look, the round tripper, the result of \<^verbatim>\<open>p.connect\<close> and whether it came with a
  connection, an error of
  \<^verbatim>\<open>httputil.DumpResponse\<close> in the traffic-shaping block (lines 710 to 746), the errors of
  writing, flushing and draining, the first byte read after a MITM'd CONNECT, the outcome
  of the TLS handshake and of the HTTP/2 hand-off, and the number of bytes of the request's
  body that are still unread when \<^verbatim>\<open>handle\<close> returns, which the deferred
  \<^verbatim>\<open>req.Body.Close()\<close> then reads from the connection. A round tripper and \<^verbatim>\<open>p.connect\<close>
  return an error or a response.
\<close>

record Inputs =
  readRequestResult :: "error + Request"
  closingAtRead :: bool
  roundTripper :: "Request \<Rightarrow> error + Response"
  connectResult :: "error + Response"
  connectConn :: bool
  closingAtReply :: bool
  shapeError :: "error option"
  writeError :: "error option"
  flushError :: "error option"
  drainError :: "error option"
  peeked :: "8 word"
  handshakeError :: "error option"
  negotiatedH2 :: bool
  h2Result :: "error option"
  bodyDrained :: nat

subsection \<open>Helpers of the engine\<close>

text \<open>
  \<^verbatim>\<open>readHeaderTimeout\<close> (lines 320 to 325) and \<^verbatim>\<open>readRequest\<close> (lines 327 to 372). A
  deadline is \<open>None\<close> when it is the zero time, else the duration added to the time of the
  call. The result is the error \<^verbatim>\<open>handle\<close> returns at once, or the request.
\<close>

definition readHeaderTimeout :: "Proxy \<Rightarrow> int" where
  "readHeaderTimeout p = (if ReadHeaderTimeout p > 0 then ReadHeaderTimeout p else ReadTimeout p)"

definition readRequest ::
  "Proxy \<Rightarrow> Externals \<Rightarrow> conn \<Rightarrow> Inputs \<Rightarrow> Engine \<Rightarrow> (error + Request) \<times> Engine" where
  "readRequest p x c i st =
     (let hdrDeadline = (if readHeaderTimeout p > 0 then Some (readHeaderTimeout p) else None);
          wholeReqDeadline = (if ReadTimeout p > 0 then Some (ReadTimeout p) else None);
          st1 = emit SetReadDeadline st;
          st2 = emit ReadRequest st1;
          (r, st3) =
            (case readRequestResult i of
               Inl err \<Rightarrow> (Inl err, if asCloseWriter x c then emit CloseWrite st2 else st2)
             | Inr req \<Rightarrow> (if closingAtRead i then Inl errClose else Inr req, st2));
          st4 = (if hdrDeadline \<noteq> wholeReqDeadline then emit SetReadDeadline st3 else st3)
      in (r, st4))"

text \<open>
  \<^verbatim>\<open>warning\<close> (lines 811 to 816), \<^verbatim>\<open>errorResponse\<close> (lines 818 to 823),
  \<^verbatim>\<open>upgradeType\<close> (lines 902 to 907).
\<close>

definition warning :: "Proxy \<Rightarrow> Externals \<Rightarrow> Header \<Rightarrow> error \<Rightarrow> Header" where
  "warning p x h err = (if WithoutWarning p then h else Warning x h err)"

definition errorResponse :: "Proxy \<Rightarrow> Externals \<Rightarrow> Request \<Rightarrow> error \<Rightarrow> Response" where
  "errorResponse p x req err =
     (case ErrorResponse p of
        Some f \<Rightarrow> f req err
      | None \<Rightarrow> NewResponse x 502 req)"

definition upgradeType :: "Externals \<Rightarrow> Header \<Rightarrow> string" where
  "upgradeType x h =
     (if \<not> HeaderValuesContainsToken x (h ''Connection'') ''Upgrade'' then []
      else Header_Get h ''Upgrade'')"

text \<open>
  \<^verbatim>\<open>roundTrip\<close> (lines 802 to 809). A call of the configured round tripper is the trace
  entry \<open>RoundTrip\<close>, and its result is what the environment's round tripper gives for the
  request.
\<close>

definition roundTrip ::
  "Externals \<Rightarrow> Context \<Rightarrow> Request \<Rightarrow> Inputs \<Rightarrow> Engine \<Rightarrow> (error + Response) \<times> Engine" where
  "roundTrip x ctx req i st =
     (if SkippingRoundTrip ctx then (Inr (NewResponse x 200 req), st)
      else (roundTripper i req, emit RoundTrip st))"

text \<open>
  \<^verbatim>\<open>tunnel\<close> (lines 538 to 559): write, flush, drain, then the two copying goroutines,
  which are one entry of the trace. \<^verbatim>\<open>handleUpgradeResponse\<close> (lines 520 to 536).
\<close>

definition tunnel :: "string \<Rightarrow> Inputs \<Rightarrow> Engine \<Rightarrow> error option \<times> Engine" where
  "tunnel name i st =
     (let st1 = emit (WriteResponse False) st in
      case writeError i of
        Some err \<Rightarrow> (Some err, st1)
      | None \<Rightarrow>
          (let st2 = emit Flush st1 in
           case flushError i of
             Some err \<Rightarrow> (Some err, st2)
           | None \<Rightarrow>
               (let st3 = emit DrainBuffered st2 in
                case drainError i of
                  Some err \<Rightarrow> (Some err, st3)
                | None \<Rightarrow> (None, emit (TunnelCopy name) st3))))"

definition handleUpgradeResponse ::
  "Externals \<Rightarrow> Inputs \<Rightarrow> Response \<Rightarrow> Engine \<Rightarrow> error option \<times> Engine" where
  "handleUpgradeResponse x i res st =
     (let resUpType = upgradeType x (resHeader res) in
      if \<not> Body_ReadWriteCloser res then (Some errClose, st)
      else (Some errClose, snd (tunnel resUpType i st)))"

text \<open>
  A modifier call of \<^verbatim>\<open>handle\<close> with the \<^verbatim>\<open>p.warning\<close> that follows an error (for
  example lines 653 to 656 and 686 to 689).
\<close>

definition modify_request ::
  "Proxy \<Rightarrow> Externals \<Rightarrow> Request \<Rightarrow> Context \<Rightarrow> Request \<times> Context" where
  "modify_request p x req ctx =
     (case ModifyRequest (reqmod p) (req, ctx) of
        (None, req', ctx') \<Rightarrow> (req', ctx')
      | (Some err, req', ctx') \<Rightarrow> (req'\<lparr>reqHeader := warning p x (reqHeader req') err\<rparr>, ctx'))"

definition modify_response ::
  "Proxy \<Rightarrow> Externals \<Rightarrow> Response \<Rightarrow> Context \<Rightarrow> Response \<times> Context" where
  "modify_response p x res ctx =
     (case ModifyResponse (resmod p) (res, ctx) of
        (None, res', ctx') \<Rightarrow> (res', ctx')
      | (Some err, res', ctx') \<Rightarrow> (res'\<lparr>resHeader := warning p x (resHeader res') err\<rparr>, ctx'))"

definition is_ErrForceClose :: "error \<Rightarrow> bool" where
  "is_ErrForceClose err = (case err of ErrForceClose msg \<Rightarrow> True | _ \<Rightarrow> False)"

text \<open>
  \<^verbatim>\<open>handle\<close> from \<^verbatim>\<open>var closing error\<close> to its end (lines 702 to 787): the decision to
  close, the traffic-shaping block, the 101 case, the write and the flush. The response is
  returned as well, to show \<^verbatim>\<open>res.Close\<close>.
\<close>

definition handle_reply ::
  "Proxy \<Rightarrow> Externals \<Rightarrow> conn \<Rightarrow> Inputs \<Rightarrow> Request \<Rightarrow> Response \<Rightarrow> Engine \<Rightarrow>
   error option \<times> Response \<times> Engine" where
  "handle_reply p x c i req res st =
     (let close_request =
            (\<not> ProtoAtLeast req 1 1 \<or> reqClose req \<or> resClose res \<or> closingAtReply i);
          res1 = (if close_request then res\<lparr>resClose := True\<rparr> else res);
          closing = (if close_request then Some errClose else None)
      in
      case (case c of ShapedConn w \<Rightarrow> shapeError i | _ \<Rightarrow> None) of
        Some err \<Rightarrow> (Some err, res1, st)
      | None \<Rightarrow>
          if StatusCode res1 = 101
          then (case handleUpgradeResponse x i res1 st of (e, st') \<Rightarrow> (e, res1, st'))
          else
            (let st1 = (if WriteTimeout p > 0 then emit SetWriteDeadline st else st);
                 st2 = emit (WriteResponse (shouldFlush x res1)) st1;
                 closing1 =
                   (case writeError i of
                      None \<Rightarrow> closing
                    | Some err \<Rightarrow>
                        if is_ErrForceClose err \<or> err = ErrUnexpectedEOF then Some errClose
                        else closing);
                 st3 = emit Flush st2;
                 closing2 =
                   (case flushError i of
                      None \<Rightarrow> closing1
                    | Some err \<Rightarrow> if is_ErrForceClose err then Some errClose else closing1);
                 closing3 = (if CloseAfterReply p then Some errClose else closing2)
             in (closing3, res1, st3)))"


subsection \<open>The per-request step and the handler loop\<close>

text \<open>
  Pieces of \<^verbatim>\<open>handle\<close> (lines 599 to 788): whether the connection is a TLS connection
  (lines 611 to 626), the connection after a MITM handshake (lines 431 to 437), the URL
  scheme (lines 637 to 647), the upgrade headers put back (lines 664 to 667 and 697 to
  700), the error response with its warning (lines 671 to 675).
\<close>

definition secure_conn :: "conn \<Rightarrow> bool" where
  "secure_conn c = (case c of TCPConn \<Rightarrow> False | TLSConn \<Rightarrow> True | ShapedConn w \<Rightarrow> w)"

definition mitm_conn :: "conn \<Rightarrow> conn" where
  "mitm_conn c = (case c of ShapedConn w \<Rightarrow> ShapedConn True | _ \<Rightarrow> TLSConn)"

definition request_scheme :: "Proxy \<Rightarrow> Session \<Rightarrow> Request \<Rightarrow> Request" where
  "request_scheme p s req =
     (if URL_Scheme req = [] then
        (if IsSecure s then req\<lparr>URL_Scheme := ''https''\<rparr> else req\<lparr>URL_Scheme := ''http''\<rparr>)
      else if URL_Scheme req = ''http'' then
        (if IsSecure s \<and> \<not> AllowHTTP p then req\<lparr>URL_Scheme := ''https''\<rparr> else req)
      else req)"

definition set_upgrade :: "string \<Rightarrow> Header \<Rightarrow> Header" where
  "set_upgrade upType h =
     (if upType \<noteq> [] then Header_Set (Header_Set h ''Connection'' ''Upgrade'') ''Upgrade'' upType
      else h)"

definition error_response_with_warning ::
  "Proxy \<Rightarrow> Externals \<Rightarrow> Request \<Rightarrow> error \<Rightarrow> Response" where
  "error_response_with_warning p x req err =
     (let res = errorResponse p x req err in res\<lparr>resHeader := warning p x (resHeader res) err\<rparr>)"

text \<open>
  \<^verbatim>\<open>handle\<close> from the assignment of \<^verbatim>\<open>res.Request\<close> to its end (lines 678 to 787): the
  response modifier, the test of \<^verbatim>\<open>session.Hijacked()\<close>, the upgrade headers put back, then
  \<open>handle_reply\<close>. The modifiers reach the session through the context, so the session of
  the engine is the one of the context they leave. Response modifiers are taken not to
  change the request behind \<^verbatim>\<open>res.Request\<close>.
\<close>

definition handle_response ::
  "Proxy \<Rightarrow> Externals \<Rightarrow> conn \<Rightarrow> Inputs \<Rightarrow> Request \<Rightarrow> Response \<Rightarrow> Context \<Rightarrow> Engine \<Rightarrow>
   error option \<times> Response \<times> Engine" where
  "handle_response p x c i req res ctx st =
     (let res1 = res\<lparr>resRequest := Some req\<rparr>;
          resUpType = upgradeType x (resHeader res1);
          (res2, ctx2) = modify_response p x res1 ctx;
          st1 = st\<lparr>sess := session ctx2\<rparr>
      in
      if Hijacked (sess st1) then (None, res2, st1)
      else
        (let res3 = res2\<lparr>resHeader := set_upgrade resUpType (resHeader res2)\<rparr>
         in handle_reply p x c i req res3 st1))"

text \<open>
  \<^verbatim>\<open>handle\<close> for a request that is not a CONNECT, from line 637 on: the request
  modifier and the test of \<^verbatim>\<open>session.Hijacked()\<close>, the round trip, then
  \<open>handle_response\<close>. Every return after the round trip runs the deferred
  \<^verbatim>\<open>res.Body.Close()\<close>.
\<close>

definition handle_request ::
  "Proxy \<Rightarrow> Externals \<Rightarrow> conn \<Rightarrow> Inputs \<Rightarrow> Request \<Rightarrow> Context \<Rightarrow> Engine \<Rightarrow>
   error option \<times> Engine" where
  "handle_request p x c i req ctx st =
     (let req1 = request_scheme p (sess st) req;
          reqUpType = upgradeType x (reqHeader req1);
          (req2, ctx1) = modify_request p x req1 ctx;
          st1 = st\<lparr>sess := session ctx1\<rparr>
      in
      if Hijacked (sess st1) then (None, st1)
      else
        (let req3 = req2\<lparr>reqHeader := set_upgrade reqUpType (reqHeader req2)\<rparr>;
             (rt, st2) = roundTrip x ctx1 req3 i st1;
             res = (case rt of
                      Inl err \<Rightarrow> error_response_with_warning p x req3 err
                    | Inr r \<Rightarrow> r)
         in case handle_response p x c i req3 res ctx1 st2 of
              (e, res4, st4) \<Rightarrow> (e, emit CloseResponseBody st4)))"

text \<open>
  \<^verbatim>\<open>handleConnectRequest\<close> without MITM: the upstream connection (lines 455 to 479),
  what follows it (lines 481 to 517), and the calls deferred at lines 458, 475 and 486,
  which run in the reverse order on every return after line 486.
\<close>

definition connect_upstream ::
  "Proxy \<Rightarrow> Externals \<Rightarrow> Inputs \<Rightarrow> Request \<Rightarrow> Context \<Rightarrow> Engine \<Rightarrow>
   (error + Response) \<times> Engine" where
  "connect_upstream p x i req ctx st =
     (if ConnectPassthrough p then
        (case roundTrip x ctx req i st of
           (Inl cerr, st') \<Rightarrow> (Inl cerr, st')
         | (Inr r, st') \<Rightarrow>
             (Inr (if StatusCode r div 100 = 2 then NewResponse x 200 req else r), st'))
      else (connectResult i, emit Connect st))"

definition connect_reply ::
  "Proxy \<Rightarrow> Externals \<Rightarrow> Inputs \<Rightarrow> Request \<Rightarrow> Context \<Rightarrow> error + Response \<Rightarrow> Engine \<Rightarrow>
   error option \<times> Engine" where
  "connect_reply p x i req ctx cres st =
     (let res = (case cres of
                   Inl cerr \<Rightarrow> error_response_with_warning p x req cerr
                 | Inr r \<Rightarrow> r);
          (res1, ctx1) = modify_response p x res ctx;
          st1 = st\<lparr>sess := session ctx1\<rparr>
      in
      if Hijacked (sess st1) then (None, st1)
      else if StatusCode res1 \<noteq> 200 then
        (flushError i, emit Flush (emit (WriteResponse False) st1))
      else
        (case tunnel ''CONNECT'' i st1 of (e, st2) \<Rightarrow> (Some errClose, st2)))"

definition connect_deferred :: "Proxy \<Rightarrow> Inputs \<Rightarrow> Engine \<Rightarrow> Engine" where
  "connect_deferred p i st =
     (let st1 = emit CloseResponseBody st in
      if ConnectPassthrough p then emit CloseRequestPipe st1
      else if connectConn i then emit CloseUpstream st1
      else st1)"

text \<open>
  \<^verbatim>\<open>handle\<close> (lines 599 to 635) and \<^verbatim>\<open>handleConnectRequest\<close> (lines 374 to 518). Each
  call of \<^verbatim>\<open>handle\<close> takes the next answers of the environment; with none left the read
  blocks for good and the result is \<open>None\<close>. The answers not used are returned. After a
  MITM'd CONNECT \<^verbatim>\<open>handle\<close> is entered again on the decrypted or the plain stream. Once
  the request has been read, every return of \<^verbatim>\<open>handle\<close> runs the deferred
  \<^verbatim>\<open>req.Body.Close()\<close>.
\<close>

fun handle ::
  "Proxy \<Rightarrow> Externals \<Rightarrow> conn \<Rightarrow> Inputs list \<Rightarrow> Engine \<Rightarrow>
   (error option \<times> Inputs list \<times> Engine) option"
and handleConnectRequest ::
  "Proxy \<Rightarrow> Externals \<Rightarrow> conn \<Rightarrow> Inputs \<Rightarrow> Inputs list \<Rightarrow> Request \<Rightarrow> Context \<Rightarrow> Engine \<Rightarrow>
   (error option \<times> Inputs list \<times> Engine) option"
where
  "handle p x c [] st = None"
| "handle p x c (i # rest) st =
     (case readRequest p x c i st of
        (Inl err, st1) \<Rightarrow> Some (Some err, rest, st1)
      | (Inr req, st1) \<Rightarrow>
          (let st2 = (if secure_conn c then st1\<lparr>sess := MarkSecure (sess st1)\<rparr> else st1);
               ctx = withSession (sess st2);
               req1 = (if secure_conn c then req\<lparr>TLS := True\<rparr> else req);
               req2 = (if URL_Host req1 = [] then req1\<lparr>URL_Host := Host req1\<rparr> else req1)
           in
           case (if Method req2 = ''CONNECT''
                 then handleConnectRequest p x c i rest req2 ctx st2
                 else (case handle_request p x c i req2 ctx st2 of
                         (e, st3) \<Rightarrow> Some (e, rest, st3))) of
             None \<Rightarrow> None
           | Some (e, rest', st4) \<Rightarrow>
               Some (e, rest', emit (CloseRequestBody (bodyDrained i)) st4)))"
| "handleConnectRequest p x c i rest req ctx st =
     (let (req1, ctx1) = modify_request p x req ctx;
          st1 = st\<lparr>sess := session ctx1\<rparr>
      in
      if Hijacked (sess st1) then Some (None, rest, st1)
      else if mitm p then
        (let res = NewResponse x 200 req1;
             (res1, ctx2) = modify_response p x res ctx1;
             st2 = st1\<lparr>sess := session ctx2\<rparr>
         in
         if Hijacked (sess st2) then Some (None, rest, st2)
         else
           (let st3 = emit DrainBuffered (emit PeekByte (emit Flush (emit (WriteResponse False) st2)))
            in
            if peeked i = 22 then
              (let st4 = emit TLSHandshake st3 in
               case handshakeError i of
                 Some err \<Rightarrow> Some (Some err, rest, emit HandshakeErrorCallback st4)
               | None \<Rightarrow>
                   if negotiatedH2 i then Some (h2Result i, rest, emit H2Proxy st4)
                   else handle p x (mitm_conn c) rest st4)
            else handle p x c rest st3))
      else
        (case connect_upstream p x i req1 ctx1 st1 of
           (cres, st2) \<Rightarrow>
             (case connect_reply p x i req1 ctx1 cres st2 of
                (e, st3) \<Rightarrow> Some (e, rest, connect_deferred p i st3))))"

text \<open>
  \<^verbatim>\<open>handleLoop\<close> (lines 279 to 318). \<open>handleLoop_for\<close> is the \<^verbatim>\<open>for\<close> loop, with a
  bound on the number of iterations; every iteration takes at least one answer of the
  environment, so the number of answers is bound enough. \<open>closing\<close> is what
  \<^verbatim>\<open>p.Closing()\<close> returns at line 285. \<^verbatim>\<open>defer conn.Close()\<close> runs on every return.
  The wait group is left out.
\<close>

definition maxConsecutiveErrors :: nat where
  "maxConsecutiveErrors = 5"

fun handleLoop_for ::
  "nat \<Rightarrow> Proxy \<Rightarrow> Externals \<Rightarrow> conn \<Rightarrow> Inputs list \<Rightarrow> Engine \<Rightarrow> nat \<Rightarrow> Engine option" where
  "handleLoop_for 0 p x c inps st errors = None"
| "handleLoop_for (Suc n) p x c inps st errors =
     (case handle p x c inps st of
        None \<Rightarrow> None
      | Some (Some err, inps', st') \<Rightarrow>
          if isCloseable err then Some st'
          else if errors + 1 \<ge> maxConsecutiveErrors then Some st'
          else if Hijacked (sess st') then Some st'
          else handleLoop_for n p x c inps' st' (errors + 1)
      | Some (None, inps', st') \<Rightarrow>
          if Hijacked (sess st') then Some st'
          else handleLoop_for n p x c inps' st' 0)"

definition handleLoop ::
  "Proxy \<Rightarrow> Externals \<Rightarrow> conn \<Rightarrow> bool \<Rightarrow> Inputs list \<Rightarrow> Engine option" where
  "handleLoop p x c closing inps =
     (let st0 = \<lparr>sess = newSession, trace = []\<rparr> in
      if closing then Some (emit ConnClose st0)
      else
        (case handleLoop_for (length inps) p x c inps st0 0 of
           None \<Rightarrow> None
         | Some st \<Rightarrow> Some (emit ConnClose st)))"

subsection \<open>Trace predicates\<close>

text \<open>
  The deferred calls, and the traces in which whatever the engine did while the session
  was hijacked was one of them.
\<close>

fun deferred_close :: "event \<Rightarrow> bool" where
  "deferred_close (CloseRequestBody n) = True"
| "deferred_close CloseResponseBody = True"
| "deferred_close CloseRequestPipe = True"
| "deferred_close CloseUpstream = True"
| "deferred_close ConnClose = True"
| "deferred_close ev = False"

definition only_deferred_while_hijacked :: "(event \<times> bool) list \<Rightarrow> bool" where
  "only_deferred_while_hijacked tr = (\<forall>e\<in>set tr. snd e \<longrightarrow> deferred_close (fst e))"

text \<open>
  The entries of a trace that read from the client connection, and those among them made
  while the session was hijacked.
\<close>

fun reads_conn :: "event \<Rightarrow> bool" where
  "reads_conn ReadRequest = True"
| "reads_conn PeekByte = True"
| "reads_conn DrainBuffered = True"
| "reads_conn TLSHandshake = True"
| "reads_conn H2Proxy = True"
| "reads_conn (TunnelCopy name) = True"
| "reads_conn (CloseRequestBody n) = (0 < n)"
| "reads_conn ev = False"

definition reads_while_hijacked :: "(event \<times> bool) list \<Rightarrow> event list" where
  "reads_while_hijacked tr = map fst (filter (\<lambda>e. snd e \<and> reads_conn (fst e)) tr)"

section \<open>Definitions: concrete inputs\<close>

text \<open>
  Modifiers on a counter: one that succeeds and two that fail, each changing the counter
  so that the calls made can be read off the result; and a group with two nested groups,
  one with the parent's flag and one without.
\<close>

definition example_ok :: "(nat, nat) modifier" where
  "example_ok = Modifier (\<lambda>n. (None, Suc n)) (\<lambda>n. (None, Suc n))"

definition example_failing :: "(nat, nat) modifier" where
  "example_failing = Modifier (\<lambda>n. (Some EOF, n + 10)) (\<lambda>n. (Some ErrClosedPipe, n + 10))"

definition example_failing2 :: "(nat, nat) modifier" where
  "example_failing2 =
     Modifier (\<lambda>n. (Some ErrUnexpectedEOF, n + 100)) (\<lambda>n. (Some errClose, n + 100))"

definition example_nested :: "(nat, nat) group" where
  "example_nested =
     group
       [example_failing,
        Group (group [example_ok, example_failing2] [] True),
        Group (group [example_failing2] [] False)]
       [Group (group [] [example_failing] True)]
       True"

text \<open>
  A plain HTTP/1.1 GET, a 200 response, an environment that answers every question with
  success, a proxy with all options off and no-op modifiers, and a request modifier and a
  response modifier that hijack the session. \<open>example_post\<close> is the environment of a request whose body of five
  bytes nobody reads before \<^verbatim>\<open>handle\<close> returns.
\<close>

definition example_request :: Request where
  "example_request =
     \<lparr>Method = ''GET'', ProtoMajor = 1, ProtoMinor = 1, reqClose = False,
      Host = ''example.com'', URL_Host = ''example.com'', URL_Scheme = ''http'',
      reqHeader = (\<lambda>k. []), TLS = False\<rparr>"

definition example_response :: Response where
  "example_response =
     \<lparr>StatusCode = 200, resClose = False, resHeader = (\<lambda>k. []), ContentLength = 0,
      resRequest = None, Body_ReadWriteCloser = False\<rparr>"

definition example_externals :: Externals where
  "example_externals =
     \<lparr>newResponse = (\<lambda>code req. example_response), Warning = (\<lambda>h err. h),
      HeaderValuesContainsToken = (\<lambda>vs t. False), shouldFlush = (\<lambda>res. False),
      asCloseWriter = (\<lambda>c. True)\<rparr>"

definition example_inputs :: Inputs where
  "example_inputs =
     \<lparr>readRequestResult = Inr example_request, closingAtRead = False,
      roundTripper = (\<lambda>req. Inr example_response), connectResult = Inr example_response,
      connectConn = True,
      closingAtReply = False, shapeError = None, writeError = None, flushError = None,
      drainError = None, peeked = 0, handshakeError = None, negotiatedH2 = False,
      h2Result = None, bodyDrained = 0\<rparr>"

definition example_post :: Inputs where
  "example_post =
     example_inputs\<lparr>readRequestResult := Inr (example_request\<lparr>Method := ''POST''\<rparr>),
                    bodyDrained := 5\<rparr>"

definition noop :: "(Request \<times> Context, Response \<times> Context) modifier" where
  "noop = Modifier (\<lambda>m. (None, m)) (\<lambda>m. (None, m))"

definition hijacker :: "(Request \<times> Context, Response \<times> Context) modifier" where
  "hijacker =
     Modifier
       (\<lambda>(req, ctx). (None, (req, ctx\<lparr>session := (session ctx)\<lparr>hijacked := True\<rparr>\<rparr>)))
       (\<lambda>m. (None, m))"


definition example_proxy :: Proxy where
  "example_proxy =
     \<lparr>AllowHTTP = False, ConnectPassthrough = False, WithoutWarning = False,
      ErrorResponse = None, ReadTimeout = 0, ReadHeaderTimeout = 0, WriteTimeout = 0,
      CloseAfterReply = False, mitm = False, reqmod = noop, resmod = noop\<rparr>"

definition example_engine :: Engine where
  "example_engine = \<lparr>sess = newSession, trace = []\<rparr>"

section \<open>Modifier groups: stopping at the first error, aggregating all errors\<close>

lemma collect_Nil [simp]: "collect merr [] = merr"
  by (simp add: collect_def)

lemma collect_Cons:
  "collect merr (e # es) =
   collect (Some (Add (case merr of None \<Rightarrow> NewMultiError | Some xs \<Rightarrow> xs) e)) es"
  by (cases merr) (simp_all add: collect_def Add_def NewMultiError_def)

lemma recorded_from_append:
  "recorded_from i (xs @ ys) = recorded_from i xs @ recorded_from (i + length xs) ys"
  by (induction xs arbitrary: i) simp_all

lemma reqmods_range_all_ok:
  "each_ModifyRequest ms req = (rs, req') \<Longrightarrow> \<forall>r\<in>set rs. r = None \<Longrightarrow>
   reqmods_range agg ms merr req = reqmods_range agg [] merr req'"
  by (induction ms arbitrary: req rs) (auto split: prod.splits option.splits)

lemma reqmods_range_first_error:
  "each_ModifyRequest pre req = (rs, req1) \<Longrightarrow> \<forall>r\<in>set rs. r = None \<Longrightarrow>
   ModifyRequest m req1 = (Some err, req2) \<Longrightarrow>
   reqmods_range False (pre @ m # post) merr req = (Some err, req2)"
  by (induction pre arbitrary: req rs) (auto split: prod.splits option.splits)

lemma reqmods_range_aggregate:
  "reqmods_range True ms merr req =
     (case each_ModifyRequest ms req of
        (rs, req') \<Rightarrow>
          (case collect merr (errors_of rs) of
             None \<Rightarrow> (None, req')
           | Some es \<Rightarrow> if es = [] then (None, req') else (Some (MultiError es), req')))"
proof (induction ms arbitrary: req merr)
  case Nil
  then show ?case by (cases merr) (simp_all add: errors_of_def Empty_def)
next
  case (Cons m ms)
  obtain r req1 where m: "ModifyRequest m req = (r, req1)" by (cases "ModifyRequest m req")
  show ?case
    by (cases r) (simp_all add: m Cons.IH errors_of_def collect_Cons split: prod.splits)
qed

lemma each_ModifyRequest_recorded:
  "each_ModifyRequest (recorded_from i ms) (req, calls) =
     (case each_ModifyRequest ms req of
        (rs, req') \<Rightarrow> (rs, (req', calls @ [i..<i + length ms])))"
proof (induction ms arbitrary: req i calls)
  case Nil
  then show ?case by simp
next
  case (Cons m ms)
  have "[i..<i + length (m # ms)] = i # [Suc i..<Suc i + length ms]"
    by (simp add: upt_rec)
  then show ?case
    by (simp add: recording_def Cons.IH split: prod.splits)
qed

lemma ModifyRequest_calls_first_error:
  assumes "each_ModifyRequest pre req = (rs, req1)" "\<forall>r\<in>set rs. r = None"
    and "ModifyRequest m req1 = (Some err, req2)"
  shows "ModifyRequest_calls (group (pre @ m # post) rss False) req = [0..<Suc (length pre)]"
proof -
  have 1: "each_ModifyRequest (recorded_from 0 pre) (req, []) = (rs, (req1, [0..<length pre]))"
    using assms(1) by (simp add: each_ModifyRequest_recorded)
  have 2: "ModifyRequest (recording (length pre) m) (req1, [0..<length pre]) =
        (Some err, (req2, [0..<Suc (length pre)]))"
    using assms(3) by (simp add: recording_def)
  show ?thesis
    using reqmods_range_first_error[OF 1 assms(2) 2]
    by (simp add: ModifyRequest_calls_def recorded_from_append)
qed

lemma ModifyRequest_calls_all_ok:
  assumes "each_ModifyRequest ms req = (rs, req')" "\<forall>r\<in>set rs. r = None"
  shows "ModifyRequest_calls (group ms rss agg) req = [0..<length ms]"
proof -
  have 1: "each_ModifyRequest (recorded_from 0 ms) (req, []) = (rs, (req', [0..<length ms]))"
    using assms(1) by (simp add: each_ModifyRequest_recorded)
  show ?thesis
    using reqmods_range_all_ok[OF 1 assms(2)]
    by (simp add: ModifyRequest_calls_def)
qed

lemma ModifyRequest_calls_aggregate:
  "ModifyRequest_calls (group ms rss True) req = [0..<length ms]"
  by (simp add: ModifyRequest_calls_def reqmods_range_aggregate each_ModifyRequest_recorded
      split: prod.splits option.splits)

lemma resmods_range_all_ok:
  "each_ModifyResponse ms res = (rs, res') \<Longrightarrow> \<forall>r\<in>set rs. r = None \<Longrightarrow>
   resmods_range agg ms merr res = resmods_range agg [] merr res'"
  by (induction ms arbitrary: res rs) (auto split: prod.splits option.splits)

lemma resmods_range_first_error:
  "each_ModifyResponse pre res = (rs, res1) \<Longrightarrow> \<forall>r\<in>set rs. r = None \<Longrightarrow>
   ModifyResponse m res1 = (Some err, res2) \<Longrightarrow>
   resmods_range False (pre @ m # post) merr res = (Some err, res2)"
  by (induction pre arbitrary: res rs) (auto split: prod.splits option.splits)

lemma resmods_range_aggregate:
  "resmods_range True ms merr res =
     (case each_ModifyResponse ms res of
        (rs, res') \<Rightarrow>
          (case collect merr (errors_of rs) of
             None \<Rightarrow> (None, res')
           | Some es \<Rightarrow> if es = [] then (None, res') else (Some (MultiError es), res')))"
proof (induction ms arbitrary: res merr)
  case Nil
  then show ?case by (cases merr) (simp_all add: errors_of_def Empty_def)
next
  case (Cons m ms)
  obtain r res1 where m: "ModifyResponse m res = (r, res1)" by (cases "ModifyResponse m res")
  show ?case
    by (cases r) (simp_all add: m Cons.IH errors_of_def collect_Cons split: prod.splits)
qed

lemma each_ModifyResponse_recorded:
  "each_ModifyResponse (recorded_from i ms) (res, calls) =
     (case each_ModifyResponse ms res of
        (rs, res') \<Rightarrow> (rs, (res', calls @ [i..<i + length ms])))"
proof (induction ms arbitrary: res i calls)
  case Nil
  then show ?case by simp
next
  case (Cons m ms)
  have "[i..<i + length (m # ms)] = i # [Suc i..<Suc i + length ms]"
    by (simp add: upt_rec)
  then show ?case
    by (simp add: recording_def Cons.IH split: prod.splits)
qed

lemma ModifyResponse_calls_first_error:
  assumes "each_ModifyResponse pre res = (rs, res1)" "\<forall>r\<in>set rs. r = None"
    and "ModifyResponse m res1 = (Some err, res2)"
  shows "ModifyResponse_calls (group rqs (pre @ m # post) False) res = [0..<Suc (length pre)]"
proof -
  have 1: "each_ModifyResponse (recorded_from 0 pre) (res, []) = (rs, (res1, [0..<length pre]))"
    using assms(1) by (simp add: each_ModifyResponse_recorded)
  have 2: "ModifyResponse (recording (length pre) m) (res1, [0..<length pre]) =
        (Some err, (res2, [0..<Suc (length pre)]))"
    using assms(3) by (simp add: recording_def)
  show ?thesis
    using resmods_range_first_error[OF 1 assms(2) 2]
    by (simp add: ModifyResponse_calls_def recorded_from_append)
qed

lemma ModifyResponse_calls_all_ok:
  assumes "each_ModifyResponse ms res = (rs, res')" "\<forall>r\<in>set rs. r = None"
  shows "ModifyResponse_calls (group rqs ms agg) res = [0..<length ms]"
proof -
  have 1: "each_ModifyResponse (recorded_from 0 ms) (res, []) = (rs, (res', [0..<length ms]))"
    using assms(1) by (simp add: each_ModifyResponse_recorded)
  show ?thesis
    using resmods_range_all_ok[OF 1 assms(2)]
    by (simp add: ModifyResponse_calls_def)
qed

lemma ModifyResponse_calls_aggregate:
  "ModifyResponse_calls (group rqs ms True) res = [0..<length ms]"
  by (simp add: ModifyResponse_calls_def resmods_range_aggregate each_ModifyResponse_recorded
      split: prod.splits option.splits)

text \<open>
  Claim C1. A group with \<^verbatim>\<open>aggregateErrors = false\<close>, for \<^verbatim>\<open>ModifyRequest\<close> and for
  \<^verbatim>\<open>ModifyResponse\<close> alike. If the entries \<open>pre\<close>, called one after the other, all
  return \<^verbatim>\<open>nil\<close> and leave the message \<open>req1\<close>, and the next entry \<open>m\<close> returns the error
  \<open>err\<close>, then the group returns exactly \<open>err\<close> with the message as \<open>m\<close> left it, and the
  entries called are those up to \<open>m\<close>, in insertion order, none of the later entries
  \<open>post\<close>. If no entry returns an error, every entry is called, in insertion order, and
  the group returns \<^verbatim>\<open>nil\<close>.
\<close>

theorem group_stops_at_first_error:
  "(each_ModifyRequest pre req = (rs, req1) \<and> (\<forall>r\<in>set rs. r = None) \<and>
    ModifyRequest m req1 = (Some err, req2) \<longrightarrow>
      group_ModifyRequest (group (pre @ m # post) rss False) req = (Some err, req2) \<and>
      ModifyRequest_calls (group (pre @ m # post) rss False) req = [0..<Suc (length pre)]) \<and>
   (each_ModifyRequest ms req = (rs', req') \<and> (\<forall>r\<in>set rs'. r = None) \<longrightarrow>
      group_ModifyRequest (group ms rss False) req = (None, req') \<and>
      ModifyRequest_calls (group ms rss False) req = [0..<length ms]) \<and>
   (each_ModifyResponse pre res = (rs, res1) \<and> (\<forall>r\<in>set rs. r = None) \<and>
    ModifyResponse m res1 = (Some err, res2) \<longrightarrow>
      group_ModifyResponse (group rqs (pre @ m # post) False) res = (Some err, res2) \<and>
      ModifyResponse_calls (group rqs (pre @ m # post) False) res = [0..<Suc (length pre)]) \<and>
   (each_ModifyResponse ms res = (rs', res') \<and> (\<forall>r\<in>set rs'. r = None) \<longrightarrow>
      group_ModifyResponse (group rqs ms False) res = (None, res') \<and>
      ModifyResponse_calls (group rqs ms False) res = [0..<length ms])"
  using reqmods_range_first_error[of pre req rs req1 m err req2 post None]
    ModifyRequest_calls_first_error[of pre req rs req1 m err req2 post rss]
    reqmods_range_all_ok[of ms req rs' req' False None]
    ModifyRequest_calls_all_ok[of ms req rs' req' rss False]
    resmods_range_first_error[of pre res rs res1 m err res2 post None]
    ModifyResponse_calls_first_error[of pre res rs res1 m err res2 rqs post]
    resmods_range_all_ok[of ms res rs' res' False None]
    ModifyResponse_calls_all_ok[of ms res rs' res' rqs False]
  by simp

theorem group_stops_at_first_error_witness:
  "group_ModifyRequest (group [example_ok, example_failing, example_ok] [] False) 0 =
     (Some EOF, 11) \<and>
   ModifyRequest_calls (group [example_ok, example_failing, example_ok] [] False) 0 = [0, 1] \<and>
   group_ModifyRequest (group [example_ok] [] False) 0 = (None, 1) \<and>
   ModifyRequest_calls (group [example_ok] [] False) 0 = [0] \<and>
   group_ModifyResponse (group [] [example_ok, example_failing, example_ok] False) 0 =
     (Some ErrClosedPipe, 11) \<and>
   ModifyResponse_calls (group [] [example_ok, example_failing, example_ok] False) 0 = [0, 1] \<and>
   group_ModifyResponse (group [] [example_ok] False) 0 = (None, 1) \<and>
   ModifyResponse_calls (group [] [example_ok] False) 0 = [0]"
proof -
  have pre: "each_ModifyRequest [example_ok] 0 = ([None], 1)"
       "each_ModifyResponse [example_ok] 0 = ([None], 1)"
    by (simp_all add: example_ok_def)
  have ok: "\<forall>r\<in>set [None :: error option]. r = None" by simp
  have kq: "ModifyRequest example_failing 1 = (Some EOF, 11)"
    by (simp add: example_failing_def)
  have ks: "ModifyResponse example_failing 1 = (Some ErrClosedPipe, 11)"
    by (simp add: example_failing_def)
  show ?thesis
    using group_stops_at_first_error
      [where pre = "[example_ok]" and req = 0 and rs = "[None]" and ?req1.0 = 1
         and m = example_failing and err = EOF and ?req2.0 = 11 and post = "[example_ok]"
         and rss = "[]" and ms = "[example_ok]" and rs' = "[None]" and req' = 1
         and res = 1000 and ?res1.0 = 0 and ?res2.0 = 0 and res' = 0 and rqs = "[]"]
      group_stops_at_first_error
      [where pre = "[example_ok]" and res = 0 and rs = "[None]" and ?res1.0 = 1
         and m = example_failing and err = ErrClosedPipe and ?res2.0 = 11
         and post = "[example_ok]" and rqs = "[]" and ms = "[example_ok]" and rs' = "[None]"
         and res' = 1 and req = 1000 and ?req1.0 = 0 and ?req2.0 = 0 and req' = 0
         and rss = "[]"]
      pre ok kq ks
    by simp
qed

text \<open>
  Claim C2. A group with \<^verbatim>\<open>aggregateErrors = true\<close>, for \<^verbatim>\<open>ModifyRequest\<close> and for
  \<^verbatim>\<open>ModifyResponse\<close> alike: the message is the one left by calling every entry in
  insertion order whatever the earlier entries returned, every entry is called exactly
  once and in that order, and the group returns \<^verbatim>\<open>nil\<close> when no entry returned an error,
  and otherwise a multi-error holding the errors of the entries in insertion order.
\<close>

theorem group_aggregates_every_error:
  "group_ModifyRequest (group rqs rss True) req =
     (case each_ModifyRequest rqs req of
        (rs, req') \<Rightarrow>
          (if errors_of rs = [] then None else Some (MultiError (errors_of rs)), req')) \<and>
   ModifyRequest_calls (group rqs rss True) req = [0..<length rqs] \<and>
   group_ModifyResponse (group rqs rss True) res =
     (case each_ModifyResponse rss res of
        (rs, res') \<Rightarrow>
          (if errors_of rs = [] then None else Some (MultiError (errors_of rs)), res')) \<and>
   ModifyResponse_calls (group rqs rss True) res = [0..<length rss]"
  by (simp add: reqmods_range_aggregate resmods_range_aggregate ModifyRequest_calls_aggregate
      ModifyResponse_calls_aggregate collect_def split: prod.splits)

theorem group_aggregates_every_error_witness:
  "group_ModifyRequest
     (group [example_failing, example_ok, example_failing2] [example_ok] True) 0 =
     (Some (MultiError [EOF, ErrUnexpectedEOF]), 111) \<and>
   ModifyRequest_calls
     (group [example_failing, example_ok, example_failing2] [example_ok] True) 0 = [0, 1, 2] \<and>
   group_ModifyResponse
     (group [example_failing, example_ok, example_failing2] [example_ok] True) 0 = (None, 1) \<and>
   ModifyResponse_calls
     (group [example_failing, example_ok, example_failing2] [example_ok] True) 0 = [0]"
  using group_aggregates_every_error
    [of "[example_failing, example_ok, example_failing2]" "[example_ok]" 0 0]
  by (simp add: example_ok_def example_failing_def example_failing2_def errors_of_def)

section \<open>Modifier groups: the immutable snapshot\<close>

lemma merge_errors_Add:
  "Some (Add (case merge_errors a b of None \<Rightarrow> NewMultiError | Some es \<Rightarrow> es) e) =
   merge_errors a (Some (Add (case b of None \<Rightarrow> NewMultiError | Some es \<Rightarrow> es) e))"
  by (cases a; cases b) (simp_all add: merge_errors_def Add_def NewMultiError_def)

lemma aggregateErrors_ToImmutable [simp]: "aggregateErrors (ToImmutable g) = aggregateErrors g"
  by (cases g) simp

lemma acc_equiv_refl: "(\<forall>ys. a = Some ys \<longrightarrow> ys \<noteq> []) \<Longrightarrow> acc_equiv a a"
  by (cases a) (simp_all add: acc_equiv_def)

lemma acc_equiv_nonempty: "acc_equiv a b \<Longrightarrow> (\<forall>ys. a = Some ys \<longrightarrow> ys \<noteq> []) \<and> (\<forall>ys. b = Some ys \<longrightarrow> ys \<noteq> [])"
  by (cases a; cases b) (simp_all add: acc_equiv_def)

lemma acc_equiv_trans: "acc_equiv a b \<Longrightarrow> acc_equiv b c \<Longrightarrow> acc_equiv a c"
  by (cases a; cases b; cases c) (simp_all add: acc_equiv_def)

lemma acc_equiv_Add:
  "acc_equiv a1 a2 \<Longrightarrow> member_errors e1 = member_errors e2 \<Longrightarrow>
   acc_equiv (Some (Add (case a1 of None \<Rightarrow> NewMultiError | Some es \<Rightarrow> es) e1))
             (Some (Add (case a2 of None \<Rightarrow> NewMultiError | Some es \<Rightarrow> es) e2))"
  by (cases a1; cases a2) (simp_all add: acc_equiv_def Add_def NewMultiError_def)

lemma steps_equiv_trans: "steps_equiv s1 s2 \<Longrightarrow> steps_equiv s2 s3 \<Longrightarrow> steps_equiv s1 s3"
  by (cases s1; cases s2; cases s3) (auto intro: acc_equiv_trans)

lemma error_equiv_refl [simp]: "error_equiv e e"
  by (cases e) (simp_all add: error_equiv_def)

lemma steps_equiv_bind:
  assumes "steps_equiv s1 s2"
    and "\<And>a1 a2 q. acc_equiv a1 a2 \<Longrightarrow> steps_equiv (k1 a1 q) (k2 a2 q)"
  shows "steps_equiv (case s1 of Inl r \<Rightarrow> Inl r | Inr (a, q) \<Rightarrow> k1 a q)
                     (case s2 of Inl r \<Rightarrow> Inl r | Inr (a, q) \<Rightarrow> k2 a q)"
  using assms by (cases s1; cases s2) auto

lemma reqmods_range_steps:
  "reqmods_range agg ms merr req =
     (case reqmods_steps agg ms merr req of
        Inl (err, req') \<Rightarrow> (Some err, req')
      | Inr (merr', req') \<Rightarrow> reqmods_range agg [] merr' req')"
proof (induction ms arbitrary: merr req)
  case Nil
  then show ?case by simp
next
  case (Cons m ms)
  obtain r req1 where m: "ModifyRequest m req = (r, req1)" by (cases "ModifyRequest m req")
  show ?case using Cons.IH by (cases r; cases agg) (simp_all add: m)
qed

lemma reqmods_steps_append:
  "reqmods_steps agg (xs @ ys) merr req =
     (case reqmods_steps agg xs merr req of
        Inl r \<Rightarrow> Inl r
      | Inr (merr', req') \<Rightarrow> reqmods_steps agg ys merr' req')"
proof (induction xs arbitrary: merr req)
  case Nil
  then show ?case by simp
next
  case (Cons m xs)
  obtain r req1 where m: "ModifyRequest m req = (r, req1)" by (cases "ModifyRequest m req")
  show ?case using Cons.IH by (cases r; cases agg) (simp_all add: m)
qed

lemma reqmods_steps_merge:
  "reqmods_steps agg xs (merge_errors a b) req =
     (case reqmods_steps agg xs b req of
        Inl r \<Rightarrow> Inl r
      | Inr (b', req') \<Rightarrow> Inr (merge_errors a b', req'))"
proof (induction xs arbitrary: b req)
  case Nil
  then show ?case by simp
next
  case (Cons m xs)
  obtain r req1 where m: "ModifyRequest m req = (r, req1)" by (cases "ModifyRequest m req")
  show ?case using Cons.IH by (cases r; cases agg) (simp_all add: m merge_errors_Add)
qed

lemma reqmods_steps_acc:
  "reqmods_steps agg xs b req = Inr (b', req') \<Longrightarrow>
   (\<not> agg \<longrightarrow> b' = b) \<and> ((\<forall>ys. b = Some ys \<longrightarrow> ys \<noteq> []) \<longrightarrow> (\<forall>ys. b' = Some ys \<longrightarrow> ys \<noteq> []))"
proof (induction xs arbitrary: b req)
  case Nil
  then show ?case by simp
next
  case (Cons m xs)
  obtain r req1 where m: "ModifyRequest m req = (r, req1)" by (cases "ModifyRequest m req")
  show ?case
  proof (cases r)
    case None
    with Cons.prems m have "reqmods_steps agg xs b req1 = Inr (b', req')" by simp
    from Cons.IH[OF this] show ?thesis .
  next
    case (Some e)
    show ?thesis
    proof (cases agg)
      case True
      with Cons.prems m Some
      have "reqmods_steps agg xs (Some (Add (case b of None \<Rightarrow> NewMultiError | Some es \<Rightarrow> es) e)) req1 = Inr (b', req')"
        by simp
      from Cons.IH[OF this] True show ?thesis by (simp add: Add_def)
    next
      case False
      with Cons.prems m Some show ?thesis by simp
    qed
  qed
qed

lemma snapshot_reqmod_simps [simp]:
  "snapshot_reqmod agg (Group c) =
     (if agg = aggregateErrors c then reqmods (ToImmutable c) else [ImmutableGroup (ToImmutable c)])"
  "snapshot_reqmod agg (Modifier f h) = [Modifier f h]"
  "snapshot_reqmod agg (ImmutableGroup c) = [ImmutableGroup c]"
  by (simp_all add: snapshot_reqmod_def)

lemma ToImmutable_reqmods_concat:
  "ToImmutable_reqmods agg ms acc = acc @ concat (map (snapshot_reqmod agg) ms)"
proof (induction ms arbitrary: acc agg)
  case Nil
  then show ?case by simp
next
  case (Cons m ms)
  show ?case
    by (cases m) (simp_all add: Cons.IH Let_def)
qed

lemma reqmods_steps_finish:
  assumes "steps_equiv s1 s2"
  shows "snd (case s1 of Inl (err, q) \<Rightarrow> (Some err, q) | Inr (merr, q) \<Rightarrow> reqmods_range agg [] merr q) =
         snd (case s2 of Inl (err, q) \<Rightarrow> (Some err, q) | Inr (merr, q) \<Rightarrow> reqmods_range agg [] merr q) \<and>
         error_equiv
           (fst (case s1 of Inl (err, q) \<Rightarrow> (Some err, q) | Inr (merr, q) \<Rightarrow> reqmods_range agg [] merr q))
           (fst (case s2 of Inl (err, q) \<Rightarrow> (Some err, q) | Inr (merr, q) \<Rightarrow> reqmods_range agg [] merr q))"
  using assms
  by (cases s1; cases s2)
     (auto simp: error_equiv_def acc_equiv_def Empty_def split: option.splits)

lemma reqmods_steps_True_not_Inl: "reqmods_steps True xs b req \<noteq> Inl r"
proof (induction xs arbitrary: b req)
  case Nil
  then show ?case by simp
next
  case (Cons m xs)
  obtain r' req1 where m: "ModifyRequest m req = (r', req1)" by (cases "ModifyRequest m req")
  show ?case using Cons.IH by (cases r') (simp_all add: m)
qed

lemma reqmods_steps_entry:
  assumes "ModifyRequest m1 req = (e1, q)" "ModifyRequest m2 req = (e2, q)"
    and "error_equiv e1 e2" "acc_equiv a1 a2"
  shows "steps_equiv (reqmods_steps agg [m1] a1 req) (reqmods_steps agg [m2] a2 req)"
proof (cases e1)
  case None
  with assms show ?thesis by (simp add: error_equiv_def)
next
  case (Some x)
  with assms obtain y where y: "e2 = Some y" "member_errors x = member_errors y"
    by (cases e2) (simp_all add: error_equiv_def)
  with assms Some acc_equiv_Add[OF assms(4) y(2)] show ?thesis by simp
qed

lemma reqmods_steps_inline:
  assumes a: "\<forall>ys. a = Some ys \<longrightarrow> ys \<noteq> []"
  shows "steps_equiv (reqmods_steps agg crq a req)
                     (reqmods_steps agg [Group (group crq crs agg)] a req)"
proof -
  have lhs: "reqmods_steps agg crq a req =
      (case reqmods_steps agg crq None req of
         Inl r \<Rightarrow> Inl r | Inr (b', q) \<Rightarrow> Inr (merge_errors a b', q))"
    using reqmods_steps_merge[of agg crq a None req] by (simp add: merge_errors_def)
  have rng: "reqmods_range agg crq None req =
      (case reqmods_steps agg crq None req of
         Inl (err, q) \<Rightarrow> (Some err, q) | Inr (merr', q) \<Rightarrow> reqmods_range agg [] merr' q)"
    by (rule reqmods_range_steps)
  show ?thesis
  proof (cases "reqmods_steps agg crq None req")
    case (Inl r)
    obtain e q where r: "r = (e, q)" by (cases r)
    from Inl have "\<not> agg" using reqmods_steps_True_not_Inl[of crq None req r] by (cases agg) auto
    with Inl r lhs rng show ?thesis by simp
  next
    case (Inr r)
    obtain b' q where r: "r = (b', q)" by (cases r)
    from reqmods_steps_acc[of agg crq None req b' q] Inr r
    have acc: "\<not> agg \<longrightarrow> b' = None" "\<forall>ys. b' = Some ys \<longrightarrow> ys \<noteq> []" by simp_all
    show ?thesis
    proof (cases b')
      case None
      with Inr r lhs rng a show ?thesis
        by (simp add: merge_errors_def acc_equiv_refl)
    next
      case (Some ys)
      with acc have "agg" "ys \<noteq> []" by auto
      with Some Inr r lhs rng a show ?thesis
        by (cases a) (simp_all add: merge_errors_def acc_equiv_def Empty_def Add_def NewMultiError_def)
    qed
  qed
qed

lemma reqmods_snapshot_preserved:
  assumes nested: "\<forall>m\<in>set ms. \<forall>c. m = Group c \<longrightarrow> reqmods_preserved c"
    and acc: "acc_equiv a1 a2"
  shows "steps_equiv (reqmods_steps agg (concat (map (snapshot_reqmod agg) ms)) a1 req)
                     (reqmods_steps agg ms a2 req)"
  using nested acc
proof (induction ms arbitrary: a1 a2 req)
  case Nil
  then show ?case by simp
next
  case (Cons m ms)
  have rest: "\<And>b1 b2 q. acc_equiv b1 b2 \<Longrightarrow>
      steps_equiv (reqmods_steps agg (concat (map (snapshot_reqmod agg) ms)) b1 q)
                  (reqmods_steps agg ms b2 q)"
    using Cons.IH Cons.prems(1) by simp
  have single: "steps_equiv (reqmods_steps agg (snapshot_reqmod agg m) a1 req)
                            (reqmods_steps agg [m] a2 req)"
  proof (cases m)
    case (Modifier f h)
    then show ?thesis
      using reqmods_steps_entry[of m req _ _ m _ a1 a2 agg] Cons.prems(2)
      by (cases "ModifyRequest m req") simp
  next
    case (ImmutableGroup c)
    then show ?thesis
      using reqmods_steps_entry[of m req _ _ m _ a1 a2 agg] Cons.prems(2)
      by (cases "ModifyRequest m req") simp
  next
    case (Group c)
    obtain crq crs cagg where c: "c = group crq crs cagg" by (cases c)
    from Cons.prems(1) Group have pc: "reqmods_preserved c" by simp
    show ?thesis
    proof (cases "agg = cagg")
      case True
      from pc c True Cons.prems(2)
      have 1: "steps_equiv (reqmods_steps agg (reqmods (ToImmutable c)) a1 req)
                           (reqmods_steps agg crq a2 req)"
        by (simp add: reqmods_preserved_def)
      from acc_equiv_nonempty[OF Cons.prems(2)]
      have 2: "steps_equiv (reqmods_steps agg crq a2 req)
                           (reqmods_steps agg [Group (group crq crs agg)] a2 req)"
        by (intro reqmods_steps_inline) simp
      from steps_equiv_trans[OF 1 2] Group c True show ?thesis by simp
    next
      case False
      have none: "acc_equiv None None" by (simp add: acc_equiv_def)
      from pc none
      have st: "steps_equiv (reqmods_steps cagg (reqmods (ToImmutable c)) None req)
                            (reqmods_steps cagg crq None req)"
        unfolding reqmods_preserved_def c by simp
      obtain e1 q1 where r1: "group_ModifyRequest (ToImmutable c) req = (e1, q1)"
        by (cases "group_ModifyRequest (ToImmutable c) req")
      obtain e2 q2 where r2: "group_ModifyRequest c req = (e2, q2)"
        by (cases "group_ModifyRequest c req")
      have g1: "group_ModifyRequest (ToImmutable c) req =
            reqmods_range cagg (reqmods (ToImmutable c)) None req"
        by (cases "ToImmutable c") (use c in auto)
      have g2: "group_ModifyRequest c req = reqmods_range cagg crq None req"
        by (simp add: c)
      from reqmods_steps_finish[OF st, of cagg] r1 r2 g1 g2
      have "q1 = q2" "error_equiv e1 e2"
        by (simp_all add: reqmods_range_steps[symmetric])
      with r1 r2 Group c False Cons.prems(2) show ?thesis
        using reqmods_steps_entry[of "ImmutableGroup (ToImmutable c)" req e1 q2 "Group c" e2 a1 a2 agg]
        by simp
    qed
  qed
  have l: "reqmods_steps agg (concat (map (snapshot_reqmod agg) (m # ms))) a1 req =
      (case reqmods_steps agg (snapshot_reqmod agg m) a1 req of
         Inl r \<Rightarrow> Inl r
       | Inr (b, q) \<Rightarrow> reqmods_steps agg (concat (map (snapshot_reqmod agg) ms)) b q)"
    by (simp add: reqmods_steps_append)
  have r: "reqmods_steps agg (m # ms) a2 req =
      (case reqmods_steps agg [m] a2 req of
         Inl r \<Rightarrow> Inl r
       | Inr (b, q) \<Rightarrow> reqmods_steps agg ms b q)"
    using reqmods_steps_append[of agg "[m]" ms a2 req] by simp
  show ?case
    unfolding l r by (rule steps_equiv_bind[OF single rest])
qed

lemma resmods_range_steps:
  "resmods_range agg ms merr res =
     (case resmods_steps agg ms merr res of
        Inl (err, res') \<Rightarrow> (Some err, res')
      | Inr (merr', res') \<Rightarrow> resmods_range agg [] merr' res')"
proof (induction ms arbitrary: merr res)
  case Nil
  then show ?case by simp
next
  case (Cons m ms)
  obtain r res1 where m: "ModifyResponse m res = (r, res1)" by (cases "ModifyResponse m res")
  show ?case using Cons.IH by (cases r; cases agg) (simp_all add: m)
qed

lemma resmods_steps_append:
  "resmods_steps agg (xs @ ys) merr res =
     (case resmods_steps agg xs merr res of
        Inl r \<Rightarrow> Inl r
      | Inr (merr', res') \<Rightarrow> resmods_steps agg ys merr' res')"
proof (induction xs arbitrary: merr res)
  case Nil
  then show ?case by simp
next
  case (Cons m xs)
  obtain r res1 where m: "ModifyResponse m res = (r, res1)" by (cases "ModifyResponse m res")
  show ?case using Cons.IH by (cases r; cases agg) (simp_all add: m)
qed

lemma resmods_steps_merge:
  "resmods_steps agg xs (merge_errors a b) res =
     (case resmods_steps agg xs b res of
        Inl r \<Rightarrow> Inl r
      | Inr (b', res') \<Rightarrow> Inr (merge_errors a b', res'))"
proof (induction xs arbitrary: b res)
  case Nil
  then show ?case by simp
next
  case (Cons m xs)
  obtain r res1 where m: "ModifyResponse m res = (r, res1)" by (cases "ModifyResponse m res")
  show ?case using Cons.IH by (cases r; cases agg) (simp_all add: m merge_errors_Add)
qed

lemma resmods_steps_acc:
  "resmods_steps agg xs b res = Inr (b', res') \<Longrightarrow>
   (\<not> agg \<longrightarrow> b' = b) \<and> ((\<forall>ys. b = Some ys \<longrightarrow> ys \<noteq> []) \<longrightarrow> (\<forall>ys. b' = Some ys \<longrightarrow> ys \<noteq> []))"
proof (induction xs arbitrary: b res)
  case Nil
  then show ?case by simp
next
  case (Cons m xs)
  obtain r res1 where m: "ModifyResponse m res = (r, res1)" by (cases "ModifyResponse m res")
  show ?case
  proof (cases r)
    case None
    with Cons.prems m have "resmods_steps agg xs b res1 = Inr (b', res')" by simp
    from Cons.IH[OF this] show ?thesis .
  next
    case (Some e)
    show ?thesis
    proof (cases agg)
      case True
      with Cons.prems m Some
      have "resmods_steps agg xs (Some (Add (case b of None \<Rightarrow> NewMultiError | Some es \<Rightarrow> es) e)) res1 = Inr (b', res')"
        by simp
      from Cons.IH[OF this] True show ?thesis by (simp add: Add_def)
    next
      case False
      with Cons.prems m Some show ?thesis by simp
    qed
  qed
qed

lemma snapshot_resmod_simps [simp]:
  "snapshot_resmod agg (Group c) =
     (if agg = aggregateErrors c then resmods (ToImmutable c) else [ImmutableGroup (ToImmutable c)])"
  "snapshot_resmod agg (Modifier f h) = [Modifier f h]"
  "snapshot_resmod agg (ImmutableGroup c) = [ImmutableGroup c]"
  by (simp_all add: snapshot_resmod_def)

lemma ToImmutable_resmods_concat:
  "ToImmutable_resmods agg ms acc = acc @ concat (map (snapshot_resmod agg) ms)"
proof (induction ms arbitrary: acc agg)
  case Nil
  then show ?case by simp
next
  case (Cons m ms)
  show ?case
    by (cases m) (simp_all add: Cons.IH Let_def)
qed

lemma resmods_steps_finish:
  assumes "steps_equiv s1 s2"
  shows "snd (case s1 of Inl (err, q) \<Rightarrow> (Some err, q) | Inr (merr, q) \<Rightarrow> resmods_range agg [] merr q) =
         snd (case s2 of Inl (err, q) \<Rightarrow> (Some err, q) | Inr (merr, q) \<Rightarrow> resmods_range agg [] merr q) \<and>
         error_equiv
           (fst (case s1 of Inl (err, q) \<Rightarrow> (Some err, q) | Inr (merr, q) \<Rightarrow> resmods_range agg [] merr q))
           (fst (case s2 of Inl (err, q) \<Rightarrow> (Some err, q) | Inr (merr, q) \<Rightarrow> resmods_range agg [] merr q))"
  using assms
  by (cases s1; cases s2)
     (auto simp: error_equiv_def acc_equiv_def Empty_def split: option.splits)

lemma resmods_steps_True_not_Inl: "resmods_steps True xs b res \<noteq> Inl r"
proof (induction xs arbitrary: b res)
  case Nil
  then show ?case by simp
next
  case (Cons m xs)
  obtain r' res1 where m: "ModifyResponse m res = (r', res1)" by (cases "ModifyResponse m res")
  show ?case using Cons.IH by (cases r') (simp_all add: m)
qed

lemma resmods_steps_entry:
  assumes "ModifyResponse m1 res = (e1, q)" "ModifyResponse m2 res = (e2, q)"
    and "error_equiv e1 e2" "acc_equiv a1 a2"
  shows "steps_equiv (resmods_steps agg [m1] a1 res) (resmods_steps agg [m2] a2 res)"
proof (cases e1)
  case None
  with assms show ?thesis by (simp add: error_equiv_def)
next
  case (Some x)
  with assms obtain y where y: "e2 = Some y" "member_errors x = member_errors y"
    by (cases e2) (simp_all add: error_equiv_def)
  with assms Some acc_equiv_Add[OF assms(4) y(2)] show ?thesis by simp
qed

lemma resmods_steps_inline:
  assumes a: "\<forall>ys. a = Some ys \<longrightarrow> ys \<noteq> []"
  shows "steps_equiv (resmods_steps agg crs a res)
                     (resmods_steps agg [Group (group crq crs agg)] a res)"
proof -
  have lhs: "resmods_steps agg crs a res =
      (case resmods_steps agg crs None res of
         Inl r \<Rightarrow> Inl r | Inr (b', q) \<Rightarrow> Inr (merge_errors a b', q))"
    using resmods_steps_merge[of agg crs a None res] by (simp add: merge_errors_def)
  have rng: "resmods_range agg crs None res =
      (case resmods_steps agg crs None res of
         Inl (err, q) \<Rightarrow> (Some err, q) | Inr (merr', q) \<Rightarrow> resmods_range agg [] merr' q)"
    by (rule resmods_range_steps)
  show ?thesis
  proof (cases "resmods_steps agg crs None res")
    case (Inl r)
    obtain e q where r: "r = (e, q)" by (cases r)
    from Inl have "\<not> agg" using resmods_steps_True_not_Inl[of crs None res r] by (cases agg) auto
    with Inl r lhs rng show ?thesis by simp
  next
    case (Inr r)
    obtain b' q where r: "r = (b', q)" by (cases r)
    from resmods_steps_acc[of agg crs None res b' q] Inr r
    have acc: "\<not> agg \<longrightarrow> b' = None" "\<forall>ys. b' = Some ys \<longrightarrow> ys \<noteq> []" by simp_all
    show ?thesis
    proof (cases b')
      case None
      with Inr r lhs rng a show ?thesis
        by (simp add: merge_errors_def acc_equiv_refl)
    next
      case (Some ys)
      with acc have "agg" "ys \<noteq> []" by auto
      with Some Inr r lhs rng a show ?thesis
        by (cases a) (simp_all add: merge_errors_def acc_equiv_def Empty_def Add_def NewMultiError_def)
    qed
  qed
qed

lemma resmods_snapshot_preserved:
  assumes nested: "\<forall>m\<in>set ms. \<forall>c. m = Group c \<longrightarrow> resmods_preserved c"
    and acc: "acc_equiv a1 a2"
  shows "steps_equiv (resmods_steps agg (concat (map (snapshot_resmod agg) ms)) a1 res)
                     (resmods_steps agg ms a2 res)"
  using nested acc
proof (induction ms arbitrary: a1 a2 res)
  case Nil
  then show ?case by simp
next
  case (Cons m ms)
  have rest: "\<And>b1 b2 q. acc_equiv b1 b2 \<Longrightarrow>
      steps_equiv (resmods_steps agg (concat (map (snapshot_resmod agg) ms)) b1 q)
                  (resmods_steps agg ms b2 q)"
    using Cons.IH Cons.prems(1) by simp
  have single: "steps_equiv (resmods_steps agg (snapshot_resmod agg m) a1 res)
                            (resmods_steps agg [m] a2 res)"
  proof (cases m)
    case (Modifier f h)
    then show ?thesis
      using resmods_steps_entry[of m res _ _ m _ a1 a2 agg] Cons.prems(2)
      by (cases "ModifyResponse m res") simp
  next
    case (ImmutableGroup c)
    then show ?thesis
      using resmods_steps_entry[of m res _ _ m _ a1 a2 agg] Cons.prems(2)
      by (cases "ModifyResponse m res") simp
  next
    case (Group c)
    obtain crq crs cagg where c: "c = group crq crs cagg" by (cases c)
    from Cons.prems(1) Group have pc: "resmods_preserved c" by simp
    show ?thesis
    proof (cases "agg = cagg")
      case True
      from pc c True Cons.prems(2)
      have 1: "steps_equiv (resmods_steps agg (resmods (ToImmutable c)) a1 res)
                           (resmods_steps agg crs a2 res)"
        by (simp add: resmods_preserved_def)
      from acc_equiv_nonempty[OF Cons.prems(2)]
      have 2: "steps_equiv (resmods_steps agg crs a2 res)
                           (resmods_steps agg [Group (group crq crs agg)] a2 res)"
        by (intro resmods_steps_inline) simp
      from steps_equiv_trans[OF 1 2] Group c True show ?thesis by simp
    next
      case False
      have none: "acc_equiv None None" by (simp add: acc_equiv_def)
      from pc none
      have st: "steps_equiv (resmods_steps cagg (resmods (ToImmutable c)) None res)
                            (resmods_steps cagg crs None res)"
        unfolding resmods_preserved_def c by simp
      obtain e1 q1 where r1: "group_ModifyResponse (ToImmutable c) res = (e1, q1)"
        by (cases "group_ModifyResponse (ToImmutable c) res")
      obtain e2 q2 where r2: "group_ModifyResponse c res = (e2, q2)"
        by (cases "group_ModifyResponse c res")
      have g1: "group_ModifyResponse (ToImmutable c) res =
            resmods_range cagg (resmods (ToImmutable c)) None res"
        by (cases "ToImmutable c") (use c in auto)
      have g2: "group_ModifyResponse c res = resmods_range cagg crs None res"
        by (simp add: c)
      from resmods_steps_finish[OF st, of cagg] r1 r2 g1 g2
      have "q1 = q2" "error_equiv e1 e2"
        by (simp_all add: resmods_range_steps[symmetric])
      with r1 r2 Group c False Cons.prems(2) show ?thesis
        using resmods_steps_entry[of "ImmutableGroup (ToImmutable c)" res e1 q2 "Group c" e2 a1 a2 agg]
        by simp
    qed
  qed
  have l: "resmods_steps agg (concat (map (snapshot_resmod agg) (m # ms))) a1 res =
      (case resmods_steps agg (snapshot_resmod agg m) a1 res of
         Inl r \<Rightarrow> Inl r
       | Inr (b, q) \<Rightarrow> resmods_steps agg (concat (map (snapshot_resmod agg) ms)) b q)"
    by (simp add: resmods_steps_append)
  have r: "resmods_steps agg (m # ms) a2 res =
      (case resmods_steps agg [m] a2 res of
         Inl r \<Rightarrow> Inl r
       | Inr (b, q) \<Rightarrow> resmods_steps agg ms b q)"
    using resmods_steps_append[of agg "[m]" ms a2 res] by simp
  show ?case
    unfolding l r by (rule steps_equiv_bind[OF single rest])
qed

lemma ToImmutable_preserved:
  fixes m :: "('q, 's) modifier" and g :: "('q, 's) group"
  shows "(\<forall>c. m = Group c \<longrightarrow> reqmods_preserved c \<and> resmods_preserved c) \<and>
         (reqmods_preserved g \<and> resmods_preserved g)"
proof (rule modifier_group.induct
    [where ?P1.0 = "\<lambda>m. \<forall>c. m = Group c \<longrightarrow> reqmods_preserved c \<and> resmods_preserved c"
       and ?P2.0 = "\<lambda>g. reqmods_preserved g \<and> resmods_preserved g"], goal_cases)
  case (1 f h)
  then show ?case by simp
next
  case (2 c)
  then show ?case by simp
next
  case (3 c)
  then show ?case by simp
next
  case (4 rqs rss agg)
  have q: "\<forall>m\<in>set rqs. \<forall>c. m = Group c \<longrightarrow> reqmods_preserved c"
    using 4(1) by blast
  have s: "\<forall>m\<in>set rss. \<forall>c. m = Group c \<longrightarrow> resmods_preserved c"
    using 4(2) by blast
  show ?case
    unfolding reqmods_preserved_def resmods_preserved_def
    using reqmods_snapshot_preserved[OF q] resmods_snapshot_preserved[OF s]
    by (simp add: ToImmutable_reqmods_concat ToImmutable_resmods_concat)
qed

lemma ToImmutable_reqmods_snapshot:
  "reqmods (ToImmutable g) = concat (map (snapshot_reqmod (aggregateErrors g)) (reqmods g))"
  by (cases g) (simp add: ToImmutable_reqmods_concat)

lemma ToImmutable_resmods_snapshot:
  "resmods (ToImmutable g) = concat (map (snapshot_resmod (aggregateErrors g)) (resmods g))"
  by (cases g) (simp add: ToImmutable_resmods_concat)

lemma group_ModifyRequest_ToImmutable:
  "snd (group_ModifyRequest (ToImmutable g) req) = snd (group_ModifyRequest g req) \<and>
   error_equiv (fst (group_ModifyRequest (ToImmutable g) req)) (fst (group_ModifyRequest g req))"
proof -
  obtain rqs rss agg where g: "g = group rqs rss agg" by (cases g)
  have "reqmods_preserved g" using ToImmutable_preserved[of "Group g" g] by simp
  moreover have "acc_equiv None None" by (simp add: acc_equiv_def)
  ultimately have st: "steps_equiv
      (reqmods_steps agg (reqmods (ToImmutable g)) None req)
      (reqmods_steps agg rqs None req)"
    unfolding reqmods_preserved_def g by simp
  have g1: "group_ModifyRequest (ToImmutable g) req =
        reqmods_range agg (reqmods (ToImmutable g)) None req"
    by (cases "ToImmutable g") (use g in auto)
  have g2: "group_ModifyRequest g req = reqmods_range agg rqs None req"
    by (simp add: g)
  from reqmods_steps_finish[OF st, of agg] show ?thesis
    by (simp add: g1 g2 reqmods_range_steps[symmetric])
qed

lemma group_ModifyResponse_ToImmutable:
  "snd (group_ModifyResponse (ToImmutable g) res) = snd (group_ModifyResponse g res) \<and>
   error_equiv (fst (group_ModifyResponse (ToImmutable g) res)) (fst (group_ModifyResponse g res))"
proof -
  obtain rqs rss agg where g: "g = group rqs rss agg" by (cases g)
  have "resmods_preserved g" using ToImmutable_preserved[of "Group g" g] by simp
  moreover have "acc_equiv None None" by (simp add: acc_equiv_def)
  ultimately have st: "steps_equiv
      (resmods_steps agg (resmods (ToImmutable g)) None res)
      (resmods_steps agg rss None res)"
    unfolding resmods_preserved_def g by simp
  have g1: "group_ModifyResponse (ToImmutable g) res =
        resmods_range agg (resmods (ToImmutable g)) None res"
    by (cases "ToImmutable g") (use g in auto)
  have g2: "group_ModifyResponse g res = resmods_range agg rss None res"
    by (simp add: g)
  from resmods_steps_finish[OF st, of agg] show ?thesis
    by (simp add: g1 g2 resmods_range_steps[symmetric])
qed

text \<open>
  Claim C3. For every mutable group \<open>g\<close>, nested groups included. The request list of
  \<^verbatim>\<open>g.ToImmutable()\<close> is the concatenation, entry by entry, of: the request list of the
  child's own snapshot when the entry is a \<^verbatim>\<open>*Group\<close> whose \<^verbatim>\<open>aggregateErrors\<close> equals
  that of \<open>g\<close> (the child is inlined), the child's snapshot as a single nested immutable
  group when the flags differ, and the entry itself when it is no \<^verbatim>\<open>*Group\<close>; the same
  for the response list; the flag is kept. \<^verbatim>\<open>ModifyRequest\<close> and \<^verbatim>\<open>ModifyResponse\<close> of the
  snapshot leave the message exactly as those of \<open>g\<close> do, and return an equivalent error:
  \<^verbatim>\<open>nil\<close> when \<open>g\<close> returns \<^verbatim>\<open>nil\<close>, and otherwise an error with the same member errors
  in the same order.
\<close>

theorem ToImmutable_inlines_equal_flags_and_preserves_modify:
  "reqmods (ToImmutable g) = concat (map (snapshot_reqmod (aggregateErrors g)) (reqmods g)) \<and>
   resmods (ToImmutable g) = concat (map (snapshot_resmod (aggregateErrors g)) (resmods g)) \<and>
   aggregateErrors (ToImmutable g) = aggregateErrors g \<and>
   snd (ModifyRequest (ImmutableGroup (ToImmutable g)) req) = snd (ModifyRequest (Group g) req) \<and>
   error_equiv (fst (ModifyRequest (ImmutableGroup (ToImmutable g)) req))
               (fst (ModifyRequest (Group g) req)) \<and>
   snd (ModifyResponse (ImmutableGroup (ToImmutable g)) res) = snd (ModifyResponse (Group g) res) \<and>
   error_equiv (fst (ModifyResponse (ImmutableGroup (ToImmutable g)) res))
               (fst (ModifyResponse (Group g) res))"
  using ToImmutable_reqmods_snapshot[of g] ToImmutable_resmods_snapshot[of g]
    group_ModifyRequest_ToImmutable[of g req] group_ModifyResponse_ToImmutable[of g res]
  by simp

theorem ToImmutable_inlines_equal_flags_and_preserves_modify_witness:
  "ToImmutable example_nested =
     group
       [example_failing, example_ok, example_failing2,
        ImmutableGroup (group [example_failing2] [] False)]
       [example_failing]
       True \<and>
   ModifyRequest (Group example_nested) 0 =
     (Some (MultiError [EOF, MultiError [ErrUnexpectedEOF], ErrUnexpectedEOF]), 211) \<and>
   ModifyRequest (ImmutableGroup (ToImmutable example_nested)) 0 =
     (Some (MultiError [EOF, ErrUnexpectedEOF, ErrUnexpectedEOF]), 211) \<and>
   error_equiv (fst (ModifyRequest (ImmutableGroup (ToImmutable example_nested)) 0))
               (fst (ModifyRequest (Group example_nested) 0)) \<and>
   snd (ModifyResponse (ImmutableGroup (ToImmutable example_nested)) 0) =
   snd (ModifyResponse (Group example_nested) 0)"
proof -
  have t: "ToImmutable example_nested =
     group
       [example_failing, example_ok, example_failing2,
        ImmutableGroup (group [example_failing2] [] False)]
       [example_failing]
       True"
    by (simp add: example_nested_def example_ok_def example_failing_def example_failing2_def)
  have q: "ModifyRequest (Group example_nested) 0 =
     (Some (MultiError [EOF, MultiError [ErrUnexpectedEOF], ErrUnexpectedEOF]), 211)"
    by (simp add: example_nested_def example_ok_def example_failing_def example_failing2_def
        Add_def NewMultiError_def Empty_def)
  have i: "ModifyRequest (ImmutableGroup (ToImmutable example_nested)) 0 =
     (Some (MultiError [EOF, ErrUnexpectedEOF, ErrUnexpectedEOF]), 211)"
    unfolding t
    by (simp add: example_ok_def example_failing_def example_failing2_def
        Add_def NewMultiError_def Empty_def)
  have e: "error_equiv (fst (ModifyRequest (ImmutableGroup (ToImmutable example_nested)) 0))
               (fst (ModifyRequest (Group example_nested) 0))"
    and r: "snd (ModifyResponse (ImmutableGroup (ToImmutable example_nested)) 0) =
            snd (ModifyResponse (Group example_nested) 0)"
    using ToImmutable_inlines_equal_flags_and_preserves_modify[of example_nested 0 0]
    by blast+
  show ?thesis by (intro conjI t q i e r)
qed

section \<open>The instrumented connection\<close>

lemma conn_call_step_nil:
  "error ic = None \<Longrightarrow>
   error (conn_call_step c ic) = None \<and> tracker (conn_call_step c ic) = tracker ic"
  by (cases c) (auto simp: Read_def Write_def Close_def close_def Let_def split: prod.splits)

lemma conn_calls_nil:
  "error ic = None \<Longrightarrow>
   error (conn_calls cs ic) = None \<and> tracker (conn_calls cs ic) = tracker ic"
  by (induction cs arbitrary: ic) (simp_all add: conn_call_step_nil)

lemma error_NewInstrumentedConn [simp]: "error (NewInstrumentedConn remote t0) = None"
  by (simp add: NewInstrumentedConn_def)

lemma tracker_NewInstrumentedConn [simp]: "tracker (NewInstrumentedConn remote t0) = []"
  by (simp add: NewInstrumentedConn_def)

text \<open>
  The counters themselves are kept as intended: after writes that all succeed,
  \<^verbatim>\<open>bytesOut\<close> has grown by the sum of the counts returned, modulo \<open>2 ^ 64\<close>.
\<close>

lemma bytesOut_successful_writes:
  "bytesOut (conn_calls (map (\<lambda>n. WriteCall n None) ns) ic) =
   bytesOut ic + sum_list (map word_of_int ns)"
  by (induction ns arbitrary: ic) (simp_all add: Write_def add.assoc)

text \<open>
  Claim C5 says that the first \<^verbatim>\<open>Close()\<close> forwards the close to the inner socket and
  emits exactly one stats entry, and that later calls return the same result without
  emitting again. The code forwards the close once, but then panics: nothing ever stores a
  pointer in the field \<^verbatim>\<open>error\<close>, so \<^verbatim>\<open>*ic.error.Load()\<close> in the \<^verbatim>\<open>StatsEntry\<close> literal
  dereferences nil before \<^verbatim>\<open>RecordStats\<close> is called. On a fresh connection the first
  \<^verbatim>\<open>Close\<close> panics with the inner connection closed once and no entry recorded, a second
  \<^verbatim>\<open>Close\<close> returns the stored result and records nothing either, and after any sequence
  of calls whatever the tracker has still received no entry.
\<close>

theorem Close_panics_before_RecordStats:
  "Close now inner (NewInstrumentedConn remote t0) =
     (Inl NilPointerDereference,
      \<lparr>address = remote, start = t0, bytesIn = 0, bytesOut = 0, error = None,
       closeOnce = True, closeError = inner, Conn_closes = 1, tracker = []\<rparr>) \<and>
   Close now' inner' (snd (Close now inner (NewInstrumentedConn remote t0))) =
     (Inr inner,
      \<lparr>address = remote, start = t0, bytesIn = 0, bytesOut = 0, error = None,
       closeOnce = True, closeError = inner, Conn_closes = 1, tracker = []\<rparr>) \<and>
   tracker (conn_calls cs (NewInstrumentedConn remote t0)) = []"
  using conn_calls_nil[of "NewInstrumentedConn remote t0" cs]
  by (simp add: Close_def close_def) (simp add: NewInstrumentedConn_def)

text \<open>
  Claim C6 says that the stats entry emitted on close carries as \<^verbatim>\<open>bytes-out\<close> the sum of
  the counts of the successful writes. No entry is emitted (the defect of claim C5): after
  a write of 5 bytes that succeeds, the counter is 5 and \<^verbatim>\<open>Close\<close> panics with the tracker
  still empty.
\<close>

theorem Write_then_Close_records_nothing:
  "Write (5, None) (NewInstrumentedConn remote t0) =
     (Inr (5, None),
      \<lparr>address = remote, start = t0, bytesIn = 0, bytesOut = 5, error = None,
       closeOnce = False, closeError = None, Conn_closes = 0, tracker = []\<rparr>) \<and>
   Close now inner (snd (Write (5, None) (NewInstrumentedConn remote t0))) =
     (Inl NilPointerDereference,
      \<lparr>address = remote, start = t0, bytesIn = 0, bytesOut = 5, error = None,
       closeOnce = True, closeError = inner, Conn_closes = 1, tracker = []\<rparr>)"
  by (simp add: Write_def Close_def close_def NewInstrumentedConn_def)

text \<open>
  Claim C7 says that \<^verbatim>\<open>Read\<close> adds the bytes read, records the first error and returns
  the inner socket's result unchanged. When the inner socket returns no error the code
  does so. When it returns an error, the condition \<^verbatim>\<open>*ic.error.Load() == nil\<close> dereferences
  the nil pointer (the defect of claim C5): \<^verbatim>\<open>Read\<close> panics, nothing is recorded, the bytes
  are not added and nothing is returned. A read of 0 bytes with \<open>EOF\<close> on a fresh
  connection shows it.
\<close>

theorem Read_with_error_panics:
  "Read (0, Some EOF) (NewInstrumentedConn remote t0) =
     (Inl NilPointerDereference, NewInstrumentedConn remote t0) \<and>
   Read (n, None) (NewInstrumentedConn remote t0) =
     (Inr (n, None), (NewInstrumentedConn remote t0)\<lparr>bytesIn := word_of_int n\<rparr>)"
  by (simp add: Read_def NewInstrumentedConn_def)

section \<open>The proxy engine: closeable errors, the round trip, closing after a reply\<close>




text \<open>
  Claim C10. When the context of the request has skip-round-trip set, \<^verbatim>\<open>roundTrip\<close>
  returns, with no error, the synthetic response \<^verbatim>\<open>NewResponse(200, nil, req)\<close>, whose
  status is 200 and whose request is \<open>req\<close>; the configured round tripper is not called:
  the trace is unchanged and the result does not depend on what the round tripper would
  answer.
\<close>

theorem roundTrip_skipped:
  "SkippingRoundTrip ctx \<Longrightarrow>
   roundTrip x ctx req i st = (Inr (NewResponse x 200 req), st) \<and>
   trace (snd (roundTrip x ctx req i st)) = trace st \<and>
   StatusCode (NewResponse x 200 req) = 200 \<and>
   resRequest (NewResponse x 200 req) = Some req"
  by (simp add: roundTrip_def NewResponse_def)

theorem roundTrip_skipped_witness:
  "roundTrip example_externals \<lparr>session = newSession, skipRoundTrip = True\<rparr> example_request
     example_inputs example_engine =
     (Inr (NewResponse example_externals 200 example_request), example_engine) \<and>
   StatusCode (NewResponse example_externals 200 example_request) = 200 \<and>
   trace (snd (roundTrip example_externals \<lparr>session = newSession, skipRoundTrip = False\<rparr>
     example_request example_inputs example_engine)) = [(RoundTrip, False)]"
proof -
  have s: "SkippingRoundTrip \<lparr>session = newSession, skipRoundTrip = True\<rparr>"
    by (simp add: SkippingRoundTrip_def)
  have n: "trace (snd (roundTrip example_externals \<lparr>session = newSession, skipRoundTrip = False\<rparr>
     example_request example_inputs example_engine)) = [(RoundTrip, False)]"
    by (simp add: roundTrip_def SkippingRoundTrip_def emit_def example_engine_def newSession_def)
  from roundTrip_skipped[OF s, of example_externals example_request example_inputs example_engine]
    n
  show ?thesis by simp
qed





text \<open>
  What \<^verbatim>\<open>handle\<close> returns for a request that is not a CONNECT and that no request modifier
  hijacked is what \<open>handle_response\<close> returns.
\<close>

lemma handle_request_returns:
  assumes "modify_request p x (request_scheme p (sess st) req) ctx = (req2, ctx1)"
    and "\<not> Hijacked (session ctx1)"
    and "req3 = req2\<lparr>reqHeader :=
           set_upgrade (upgradeType x (reqHeader (request_scheme p (sess st) req)))
             (reqHeader req2)\<rparr>"
    and "roundTrip x ctx1 req3 i (st\<lparr>sess := session ctx1\<rparr>) = (rt, st2)"
    and "res = (case rt of Inl err \<Rightarrow> error_response_with_warning p x req3 err | Inr r \<Rightarrow> r)"
  shows "fst (handle_request p x c i req ctx st) =
           fst (handle_response p x c i req3 res ctx1 st2)"
  using assms by (cases rt) (simp_all add: handle_request_def Let_def split_def)




section \<open>The proxy engine: a hijacked session\<close>

lemma sess_emit [simp]: "sess (emit ev st) = sess st"
  by (simp add: emit_def)

lemma quiet_emit [simp]:
  "only_deferred_while_hijacked (trace (emit ev st)) =
     (only_deferred_while_hijacked (trace st) \<and> (hijacked (sess st) \<longrightarrow> deferred_close ev))"
  by (auto simp: emit_def only_deferred_while_hijacked_def)

lemma hijacked_MarkSecure [simp]: "hijacked (MarkSecure s) = hijacked s"
  by (simp add: MarkSecure_def)

lemma sess_readRequest [simp]: "sess (snd (readRequest p x c i st)) = sess st"
  by (simp add: readRequest_def Let_def split_def split: sum.splits)

lemma quiet_readRequest [simp]:
  "\<not> hijacked (sess st) \<Longrightarrow>
   only_deferred_while_hijacked (trace (snd (readRequest p x c i st))) = only_deferred_while_hijacked (trace st)"
  by (simp add: readRequest_def Let_def split_def split: sum.splits)

lemma sess_roundTrip [simp]: "sess (snd (roundTrip x ctx req i st)) = sess st"
  by (simp add: roundTrip_def)

lemma quiet_roundTrip [simp]:
  "\<not> hijacked (sess st) \<Longrightarrow>
   only_deferred_while_hijacked (trace (snd (roundTrip x ctx req i st))) = only_deferred_while_hijacked (trace st)"
  by (simp add: roundTrip_def)

lemma roundTrip_quiet:
  "roundTrip x ctx req i st = (r, st') \<Longrightarrow> \<not> hijacked (sess st) \<Longrightarrow>
   only_deferred_while_hijacked (trace st) \<Longrightarrow>
   sess st' = sess st \<and> only_deferred_while_hijacked (trace st')"
  using sess_roundTrip[of x ctx req i st] quiet_roundTrip[of st x ctx req i] by simp

lemma sess_tunnel [simp]: "sess (snd (tunnel name i st)) = sess st"
  by (simp add: tunnel_def Let_def split: option.splits)

lemma quiet_tunnel [simp]:
  "\<not> hijacked (sess st) \<Longrightarrow>
   only_deferred_while_hijacked (trace (snd (tunnel name i st))) = only_deferred_while_hijacked (trace st)"
  by (simp add: tunnel_def Let_def split: option.splits)

lemma sess_handleUpgradeResponse [simp]: "sess (snd (handleUpgradeResponse x i res st)) = sess st"
  by (simp add: handleUpgradeResponse_def Let_def)

lemma quiet_handleUpgradeResponse [simp]:
  "\<not> hijacked (sess st) \<Longrightarrow>
   only_deferred_while_hijacked (trace (snd (handleUpgradeResponse x i res st))) =
   only_deferred_while_hijacked (trace st)"
  by (simp add: handleUpgradeResponse_def Let_def)

lemma sess_handle_reply [simp]: "sess (snd (snd (handle_reply p x c i req res st))) = sess st"
  by (simp add: handle_reply_def Let_def split_def split: option.splits conn.splits)

lemma quiet_handle_reply [simp]:
  "\<not> hijacked (sess st) \<Longrightarrow>
   only_deferred_while_hijacked (trace (snd (snd (handle_reply p x c i req res st)))) =
   only_deferred_while_hijacked (trace st)"
  by (simp add: handle_reply_def Let_def split_def split: option.splits conn.splits)

lemma quiet_handle_response:
  assumes "only_deferred_while_hijacked (trace st)"
  shows "only_deferred_while_hijacked (trace (snd (snd (handle_response p x c i req res ctx st))))"
proof -
  obtain res2 ctx2 where m: "modify_response p x (res\<lparr>resRequest := Some req\<rparr>) ctx = (res2, ctx2)"
    by (cases "modify_response p x (res\<lparr>resRequest := Some req\<rparr>) ctx")
  define st1 where "st1 = st\<lparr>sess := session ctx2\<rparr>"
  have q1: "only_deferred_while_hijacked (trace st1)" using assms by (simp add: st1_def)
  show ?thesis
  proof (cases "hijacked (session ctx2)")
    case True
    then show ?thesis using m q1
      by (simp add: handle_response_def Let_def Hijacked_def st1_def)
  next
    case False
    then have "\<not> hijacked (sess st1)" by (simp add: st1_def)
    from quiet_handle_reply[OF this] q1
    have "\<And>rs. only_deferred_while_hijacked (trace (snd (snd (handle_reply p x c i req rs st1))))"
      by simp
    then show ?thesis using m False
      by (simp add: handle_response_def Let_def Hijacked_def st1_def[symmetric])
  qed
qed

lemma quiet_handle_request:
  assumes "\<not> hijacked (sess st)" "only_deferred_while_hijacked (trace st)"
  shows "only_deferred_while_hijacked (trace (snd (handle_request p x c i req ctx st)))"
proof -
  define req1 where "req1 = request_scheme p (sess st) req"
  obtain req2 ctx1 where m1: "modify_request p x req1 ctx = (req2, ctx1)"
    by (cases "modify_request p x req1 ctx")
  define st1 where "st1 = st\<lparr>sess := session ctx1\<rparr>"
  have q1: "only_deferred_while_hijacked (trace st1)" using assms by (simp add: st1_def)
  show ?thesis
  proof (cases "hijacked (session ctx1)")
    case True
    then show ?thesis using m1 q1
      by (simp add: handle_request_def Let_def Hijacked_def req1_def[symmetric] st1_def)
  next
    case nh1: False
    define req3 where
      "req3 = req2\<lparr>reqHeader := set_upgrade (upgradeType x (reqHeader req1)) (reqHeader req2)\<rparr>"
    obtain rt st2 where rt: "roundTrip x ctx1 req3 i st1 = (rt, st2)"
      by (cases "roundTrip x ctx1 req3 i st1")
    have nh1': "\<not> hijacked (sess st1)" using nh1 by (simp add: st1_def)
    from roundTrip_quiet[OF rt nh1' q1]
    have q2: "only_deferred_while_hijacked (trace st2)" by simp
    from quiet_handle_response[OF q2]
    have "\<And>rs. only_deferred_while_hijacked
            (trace (snd (snd (handle_response p x c i req3 rs ctx1 st2))))" .
    then show ?thesis using m1 nh1 rt
      by (simp add: handle_request_def Let_def Hijacked_def req1_def[symmetric]
          st1_def[symmetric] req3_def[symmetric] split_def)
  qed
qed

lemma sess_connect_upstream [simp]: "sess (snd (connect_upstream p x i req ctx st)) = sess st"
  using sess_roundTrip[of x ctx req i st]
  by (cases "roundTrip x ctx req i st") (auto simp: connect_upstream_def split: sum.splits)

lemma quiet_connect_upstream [simp]:
  "\<not> hijacked (sess st) \<Longrightarrow>
   only_deferred_while_hijacked (trace (snd (connect_upstream p x i req ctx st))) =
   only_deferred_while_hijacked (trace st)"
  using quiet_roundTrip[of st x ctx req i]
  by (cases "roundTrip x ctx req i st") (auto simp: connect_upstream_def split: sum.splits)

lemma quiet_connect_deferred [simp]:
  "only_deferred_while_hijacked (trace (connect_deferred p i st)) = only_deferred_while_hijacked (trace st)"
  by (simp add: connect_deferred_def Let_def)

lemma quiet_connect_reply:
  assumes "only_deferred_while_hijacked (trace st)"
  shows "only_deferred_while_hijacked (trace (snd (connect_reply p x i req ctx cres st)))"
proof -
  define res where "res =
     (case cres of Inl cerr \<Rightarrow> error_response_with_warning p x req cerr | Inr r \<Rightarrow> r)"
  obtain res1 ctx1 where m: "modify_response p x res ctx = (res1, ctx1)"
    by (cases "modify_response p x res ctx")
  show ?thesis
    using assms m quiet_tunnel[of "st\<lparr>sess := session ctx1\<rparr>" "''CONNECT''" i]
    by (simp add: connect_reply_def Let_def Hijacked_def res_def[symmetric] split_def)
qed

lemma handleConnectRequest_quiet:
  assumes IH: "\<And>c st r. \<not> hijacked (sess st) \<Longrightarrow> only_deferred_while_hijacked (trace st) \<Longrightarrow>
                 handle p x c rest st = Some r \<Longrightarrow>
                 only_deferred_while_hijacked (trace (snd (snd r)))"
    and q: "only_deferred_while_hijacked (trace st)"
    and h: "handleConnectRequest p x c i rest req ctx st = Some r"
  shows "only_deferred_while_hijacked (trace (snd (snd r)))"
proof -
  obtain req1 ctx1 where m1: "modify_request p x req ctx = (req1, ctx1)"
    by (cases "modify_request p x req ctx")
  show ?thesis
  proof (cases "hijacked (session ctx1)")
    case True
    with h m1 q show ?thesis by (auto simp: Hijacked_def)
  next
    case nh1: False
    show ?thesis
    proof (cases "mitm p")
      case True
      obtain res1 ctx2 where m2: "modify_response p x (NewResponse x 200 req1) ctx1 = (res1, ctx2)"
        by (cases "modify_response p x (NewResponse x 200 req1) ctx1")
      show ?thesis
      proof (cases "hijacked (session ctx2)")
        case True
        with h m1 m2 q nh1 \<open>mitm p\<close> show ?thesis by (auto simp: Hijacked_def)
      next
        case nh2: False
        define st3 where "st3 = emit DrainBuffered (emit PeekByte (emit Flush
            (emit (WriteResponse False) (st\<lparr>sess := session ctx2\<rparr>))))"
        have c3: "\<not> hijacked (sess st3)" "only_deferred_while_hijacked (trace st3)"
          using nh2 q by (simp_all add: st3_def)
        show ?thesis
        proof (cases "peeked i = 22")
          case True
          define st4 where "st4 = emit TLSHandshake st3"
          have c4: "\<not> hijacked (sess st4)" "only_deferred_while_hijacked (trace st4)"
            using c3 by (simp_all add: st4_def)
          show ?thesis
          proof (cases "handshakeError i")
            case (Some err)
            with h m1 m2 nh1 nh2 \<open>mitm p\<close> True c4 show ?thesis
              by (auto simp: Hijacked_def st3_def st4_def)
          next
            case None
            show ?thesis
            proof (cases "negotiatedH2 i")
              case True
              with h m1 m2 nh1 nh2 \<open>mitm p\<close> \<open>peeked i = 22\<close> None c4 show ?thesis
                by (auto simp: Hijacked_def st3_def st4_def)
            next
              case False
              with h m1 m2 nh1 nh2 \<open>mitm p\<close> \<open>peeked i = 22\<close> None
              have "handle p x (mitm_conn c) rest st4 = Some r"
                by (simp add: Hijacked_def st3_def st4_def)
              from IH[OF c4 this] show ?thesis .
            qed
          qed
        next
          case False
          with h m1 m2 nh1 nh2 \<open>mitm p\<close>
          have "handle p x c rest st3 = Some r"
            by (simp add: Hijacked_def st3_def)
          from IH[OF c3 this] show ?thesis .
        qed
      qed
    next
      case nomitm: False
      define st1 where "st1 = st\<lparr>sess := session ctx1\<rparr>"
      have c1: "\<not> hijacked (sess st1)" "only_deferred_while_hijacked (trace st1)"
        using nh1 q by (simp_all add: st1_def)
      have "only_deferred_while_hijacked (trace (snd (connect_upstream p x i req1 ctx1 st1)))"
        using c1 by simp
      from quiet_connect_reply[OF this]
      have "\<And>cres. only_deferred_while_hijacked (trace (connect_deferred p i
                (snd (connect_reply p x i req1 ctx1 cres
                  (snd (connect_upstream p x i req1 ctx1 st1))))))" by simp
      with h m1 nh1 nomitm show ?thesis
        by (auto simp: Hijacked_def st1_def split_def Let_def)
    qed
  qed
qed

lemma handle_Cons_Some:
  assumes "handle p x c (i # rest) st = Some r"
    and "readRequest p x c i st = (Inr req, st1)"
  defines "st2 \<equiv> (if secure_conn c then st1\<lparr>sess := MarkSecure (sess st1)\<rparr> else st1)"
    and "req2 \<equiv>
      (let req1 = (if secure_conn c then req\<lparr>TLS := True\<rparr> else req)
       in if URL_Host req1 = [] then req1\<lparr>URL_Host := Host req1\<rparr> else req1)"
  shows "\<exists>r0. r = (fst r0, fst (snd r0), emit (CloseRequestBody (bodyDrained i)) (snd (snd r0))) \<and>
           (if Method req2 = ''CONNECT''
            then handleConnectRequest p x c i rest req2 (withSession (sess st2)) st2 = Some r0
            else r0 = (fst (handle_request p x c i req2 (withSession (sess st2)) st2), rest,
                       snd (handle_request p x c i req2 (withSession (sess st2)) st2)))"
proof (cases "Method req2 = ''CONNECT''")
  case True
  then show ?thesis
    using assms(1,2)
    by (cases "handleConnectRequest p x c i rest req2 (withSession (sess st2)) st2")
       (auto simp: Let_def st2_def req2_def simp del: handleConnectRequest.simps)
next
  case False
  then show ?thesis
    using assms(1,2)
    by (auto simp: Let_def st2_def req2_def split_def simp del: handleConnectRequest.simps)
qed

lemma handle_quiet:
  "\<not> hijacked (sess st) \<Longrightarrow> only_deferred_while_hijacked (trace st) \<Longrightarrow>
   handle p x c inps st = Some r \<Longrightarrow> only_deferred_while_hijacked (trace (snd (snd r)))"
proof (induction inps arbitrary: c st r)
  case Nil
  then show ?case by simp
next
  case (Cons i rest)
  obtain rr st1 where rd: "readRequest p x c i st = (rr, st1)"
    by (cases "readRequest p x c i st")
  have s1: "sess st1 = sess st" using sess_readRequest[of p x c i st] rd by simp
  have q1: "only_deferred_while_hijacked (trace st1)"
    using quiet_readRequest[of st p x c i] rd Cons.prems by simp
  show ?case
  proof (cases rr)
    case (Inl err)
    with rd Cons.prems q1 show ?thesis by auto
  next
    case (Inr req)
    define st2 where "st2 = (if secure_conn c then st1\<lparr>sess := MarkSecure (sess st1)\<rparr> else st1)"
    have c2: "\<not> hijacked (sess st2)" "only_deferred_while_hijacked (trace st2)"
      using s1 q1 Cons.prems(1) by (simp_all add: st2_def)
    define req2 where "req2 =
      (let req1 = (if secure_conn c then req\<lparr>TLS := True\<rparr> else req)
       in if URL_Host req1 = [] then req1\<lparr>URL_Host := Host req1\<rparr> else req1)"
    from handle_Cons_Some[OF Cons.prems(3) rd[unfolded Inr]]
    obtain r0 where r: "r = (fst r0, fst (snd r0), emit (CloseRequestBody (bodyDrained i)) (snd (snd r0)))"
      and r0: "if Method req2 = ''CONNECT''
            then handleConnectRequest p x c i rest req2 (withSession (sess st2)) st2 = Some r0
            else r0 = (fst (handle_request p x c i req2 (withSession (sess st2)) st2), rest,
                       snd (handle_request p x c i req2 (withSession (sess st2)) st2))"
      unfolding st2_def req2_def by blast
    have "only_deferred_while_hijacked (trace (snd (snd r0)))"
    proof (cases "Method req2 = ''CONNECT''")
      case True
      with r0 have "handleConnectRequest p x c i rest req2 (withSession (sess st2)) st2 = Some r0"
        by simp
      from handleConnectRequest_quiet[OF Cons.IH c2(2) this] show ?thesis by simp
    next
      case False
      with r0 quiet_handle_request[OF c2] show ?thesis by simp
    qed
    with r show ?thesis by simp
  qed
qed

lemma handleConnectRequest_consumes:
  assumes IH: "\<And>c st r. handle p x c rest st = Some r \<Longrightarrow> length (fst (snd r)) < length rest"
    and h: "handleConnectRequest p x c i rest req ctx st = Some r"
  shows "length (fst (snd r)) \<le> length rest"
proof -
  obtain req1 ctx1 where m1: "modify_request p x req ctx = (req1, ctx1)"
    by (cases "modify_request p x req ctx")
  obtain res1 ctx2 where m2: "modify_response p x (NewResponse x 200 req1) ctx1 = (res1, ctx2)"
    by (cases "modify_response p x (NewResponse x 200 req1) ctx1")
  define st3 where "st3 = emit DrainBuffered (emit PeekByte (emit Flush
      (emit (WriteResponse False) (st\<lparr>sess := session ctx2\<rparr>))))"
  consider (direct) "fst (snd r) = rest"
    | (tls) "handle p x (mitm_conn c) rest (emit TLSHandshake st3) = Some r"
    | (plain) "handle p x c rest st3 = Some r"
    using h m1 m2
    by (auto simp: Let_def split_def st3_def split: if_splits option.splits)
  then show ?thesis
  proof cases
    case direct
    then show ?thesis by simp
  next
    case tls
    from IH[OF this] show ?thesis by simp
  next
    case plain
    from IH[OF this] show ?thesis by simp
  qed
qed

lemma handle_consumes:
  "handle p x c inps st = Some r \<Longrightarrow> length (fst (snd r)) < length inps"
proof (induction inps arbitrary: c st r)
  case Nil
  then show ?case by simp
next
  case (Cons i rest)
  obtain rr st1 where rd: "readRequest p x c i st = (rr, st1)"
    by (cases "readRequest p x c i st")
  show ?case
  proof (cases rr)
    case (Inl err)
    with rd Cons.prems show ?thesis by auto
  next
    case (Inr req)
    define st2 where "st2 = (if secure_conn c then st1\<lparr>sess := MarkSecure (sess st1)\<rparr> else st1)"
    define req2 where "req2 =
      (let req1 = (if secure_conn c then req\<lparr>TLS := True\<rparr> else req)
       in if URL_Host req1 = [] then req1\<lparr>URL_Host := Host req1\<rparr> else req1)"
    from handle_Cons_Some[OF Cons.prems rd[unfolded Inr]]
    obtain r0 where r: "r = (fst r0, fst (snd r0), emit (CloseRequestBody (bodyDrained i)) (snd (snd r0)))"
      and r0: "if Method req2 = ''CONNECT''
            then handleConnectRequest p x c i rest req2 (withSession (sess st2)) st2 = Some r0
            else r0 = (fst (handle_request p x c i req2 (withSession (sess st2)) st2), rest,
                       snd (handle_request p x c i req2 (withSession (sess st2)) st2))"
      unfolding st2_def req2_def by blast
    have "length (fst (snd r0)) \<le> length rest"
    proof (cases "Method req2 = ''CONNECT''")
      case True
      with r0 have "handleConnectRequest p x c i rest req2 (withSession (sess st2)) st2 = Some r0"
        by simp
      then show ?thesis
        by (rule handleConnectRequest_consumes[rotated]) (rule Cons.IH)
    next
      case False
      with r0 show ?thesis by simp
    qed
    with r show ?thesis by simp
  qed
qed

text \<open>
  The bound \<open>length inps\<close> that \<open>handleLoop\<close> gives the loop never cuts it short: any
  larger bound gives the same result.
\<close>

lemma handleLoop_for_enough:
  "length inps \<le> n \<Longrightarrow>
   handleLoop_for n p x c inps st errors = handleLoop_for (length inps) p x c inps st errors"
proof (induction n arbitrary: inps st errors rule: less_induct)
  case (less n)
  show ?case
  proof (cases n)
    case 0
    with less.prems show ?thesis by simp
  next
    case (Suc n')
    show ?thesis
    proof (cases inps)
      case Nil
      then show ?thesis using Suc by simp
    next
      case (Cons i rest)
      show ?thesis
      proof (cases "handle p x c inps st")
        case None
        then show ?thesis using Cons Suc by simp
      next
        case (Some r)
        obtain e inps' st' where r: "r = (e, inps', st')" by (cases r)
        from handle_consumes[OF Some] r have l: "length inps' < length inps" by simp
        have a: "handleLoop_for n' p x c inps' st' k =
                 handleLoop_for (length inps') p x c inps' st' k" for k
          using less.IH[of n' inps' st' k] l less.prems Suc by simp
        have b: "handleLoop_for (length rest) p x c inps' st' k =
                 handleLoop_for (length inps') p x c inps' st' k" for k
          using less.IH[of "length rest" inps' st' k] l less.prems Suc Cons by simp
        show ?thesis
          using Some r Cons Suc a b by (simp split: option.splits)
      qed
    qed
  qed
qed

lemma handleLoop_for_quiet:
  "\<not> hijacked (sess st) \<Longrightarrow> only_deferred_while_hijacked (trace st) \<Longrightarrow>
   handleLoop_for n p x c inps st errors = Some st' \<Longrightarrow> only_deferred_while_hijacked (trace st')"
proof (induction n arbitrary: inps st errors)
  case 0
  then show ?case by simp
next
  case (Suc n)
  from Suc.prems(3) obtain e inps' st1 where h: "handle p x c inps st = Some (e, inps', st1)"
    by (auto split: option.splits)
  from handle_quiet[OF Suc.prems(1,2) h] have q1: "only_deferred_while_hijacked (trace st1)" by simp
  show ?case
  proof (cases "hijacked (sess st1)")
    case True
    with Suc.prems(3) h q1 show ?thesis
      by (auto simp: Hijacked_def split: option.splits if_splits)
  next
    case False
    with Suc.prems(3) h q1 Suc.IH[OF False q1] show ?thesis
      by (auto simp: Hijacked_def split: option.splits if_splits)
  qed
qed

lemma handleLoop_for_hijacked:
  "handle p x c inps st = Some (err, inps', st') \<Longrightarrow> hijacked (sess st') \<Longrightarrow>
   handleLoop_for (Suc n) p x c inps st errors = Some st'"
  by (cases err) (simp_all add: Hijacked_def)

lemma handleLoop_quiet:
  assumes "handleLoop p x c closing inps = Some st"
  shows "only_deferred_while_hijacked (trace st) \<and>
         (\<exists>tr. trace st = tr @ [(ConnClose, hijacked (sess st))])"
proof (cases closing)
  case True
  with assms show ?thesis
    by (auto simp: handleLoop_def emit_def only_deferred_while_hijacked_def)
next
  case False
  with assms obtain st1 where
    l: "handleLoop_for (length inps) p x c inps \<lparr>sess = newSession, trace = []\<rparr> 0 = Some st1"
    and st: "st = emit ConnClose st1"
    by (auto simp: handleLoop_def split: option.splits)
  have "only_deferred_while_hijacked (trace st1)"
    by (rule handleLoop_for_quiet[OF _ _ l])
       (simp_all add: newSession_def only_deferred_while_hijacked_def)
  then show ?thesis by (simp add: st) (simp add: emit_def)
qed

text \<open>
  What the tests of \<^verbatim>\<open>session.Hijacked()\<close> give. When a call of \<^verbatim>\<open>handle\<close> returns with
  the session hijacked, the loop of \<^verbatim>\<open>handleLoop\<close> returns at once, whatever the error
  returned and the count of consecutive errors. Whenever \<^verbatim>\<open>handleLoop\<close> returns, whatever
  the engine did while the session was hijacked is a deferred call, and the last entry of
  its trace is the deferred \<^verbatim>\<open>conn.Close()\<close>.
\<close>

lemma handleLoop_only_deferred_while_hijacked:
  "(handle p x c inps st = Some (err, inps', st') \<and> hijacked (sess st') \<longrightarrow>
      handleLoop_for (Suc n) p x c inps st errors = Some st') \<and>
   (handleLoop p x c closing inps = Some st'' \<longrightarrow>
      only_deferred_while_hijacked (trace st'') \<and>
      (\<exists>tr. trace st'' = tr @ [(ConnClose, hijacked (sess st''))]))"
  using handleLoop_for_hijacked[of p x c inps st err inps' st' n errors]
    handleLoop_quiet[of p x c closing inps st'']
  by blast

lemma handle_hijacker:
  "handle (example_proxy\<lparr>reqmod := hijacker\<rparr>) example_externals TCPConn [example_post]
     example_engine =
   Some (None, [],
     \<lparr>sess = \<lparr>secure = False, hijacked = True\<rparr>,
      trace = [(SetReadDeadline, False), (ReadRequest, False), (CloseRequestBody 5, True)]\<rparr>)"
  by (simp add: readRequest_def readHeaderTimeout_def handle_request_def modify_request_def
      Let_def emit_def secure_conn_def withSession_def newSession_def Hijacked_def
      request_scheme_def
      example_proxy_def example_externals_def example_inputs_def example_engine_def
      example_request_def example_post_def hijacker_def)

text \<open>
  Claim C4 does not hold of the code. A client sends a request with a body of five bytes
  and a request modifier hijacks the session without reading the body. \<^verbatim>\<open>handle\<close> returns
  at the test of \<^verbatim>\<open>session.Hijacked()\<close> and \<^verbatim>\<open>handleLoop\<close> returns after it, but on the way
  out, with the session hijacked, the deferred \<^verbatim>\<open>req.Body.Close()\<close> reads the five bytes
  from the connection, and the deferred \<^verbatim>\<open>conn.Close()\<close> closes the socket.
\<close>

theorem handleLoop_reads_and_closes_hijacked_conn:
  "handleLoop (example_proxy\<lparr>reqmod := hijacker\<rparr>) example_externals TCPConn False
     [example_post] =
   Some \<lparr>sess = \<lparr>secure = False, hijacked = True\<rparr>,
         trace = [(SetReadDeadline, False), (ReadRequest, False), (CloseRequestBody 5, True),
                  (ConnClose, True)]\<rparr> \<and>
   reads_while_hijacked
     [(SetReadDeadline, False), (ReadRequest, False), (CloseRequestBody 5, True),
      (ConnClose, True)] = [CloseRequestBody 5]"
  using handle_hijacker
  by (simp add: handleLoop_def Hijacked_def emit_def example_engine_def
      reads_while_hijacked_def)

end
